theory Spec2Isabelle
  imports Main
begin

section \<open>Data model (hexapawn.py, bot.py)\<close>

text \<open>
  The three cell values of \<^verbatim>\<open>hexapawn.py\<close> (the strings \<^verbatim>\<open>WHITE\<close>, \<^verbatim>\<open>BLACK\<close>,
  \<^verbatim>\<open>EMPTY\<close>). A turn is given by the same constants; \<open>EMPTY\<close> as a turn stands for
  any string that is neither \<^verbatim>\<open>WHITE\<close> nor \<^verbatim>\<open>BLACK\<close>.
\<close>

datatype piece = WHITE | BLACK | EMPTY

text \<open>The exceptions the modelled code can raise.\<close>

datatype error = IndexError | AssertionError | ValueError

type_synonym board = "piece list list"
type_synonym pos = "int \<times> int"
type_synonym move = "pos \<times> pos"
type_synonym moves = "(pos \<times> pos list) list"

text \<open>Sequencing of fallible steps: the first exception aborts the rest.\<close>

definition ebind :: "error + 'a \<Rightarrow> ('a \<Rightarrow> error + 'b) \<Rightarrow> error + 'b" where
  "ebind x f = (case x of Inl e \<Rightarrow> Inl e | Inr v \<Rightarrow> f v)"

text \<open>
  Python list indexing: a negative index counts from the end, anything outside
  \<open>[-len, len)\<close> raises \<^verbatim>\<open>IndexError\<close>.
\<close>

definition norm_index :: "nat \<Rightarrow> int \<Rightarrow> error + nat" where
  "norm_index len i =
     (let k = (if i < 0 then i + int len else i)
      in if 0 \<le> k \<and> k < int len then Inr (nat k) else Inl IndexError)"

definition getitem :: "'a list \<Rightarrow> int \<Rightarrow> error + 'a" where
  "getitem xs i = ebind (norm_index (length xs) i) (\<lambda>k. Inr (xs ! k))"

definition setitem :: "'a list \<Rightarrow> int \<Rightarrow> 'a \<Rightarrow> error + 'a list" where
  "setitem xs i v = ebind (norm_index (length xs) i) (\<lambda>k. Inr (xs[k := v]))"

text \<open>\<^verbatim>\<open>board[i][j]\<close> and \<^verbatim>\<open>board[i][j] = v\<close> (rows are never shared between boards).\<close>

definition cell :: "board \<Rightarrow> pos \<Rightarrow> error + piece" where
  "cell b p = ebind (getitem b (fst p)) (\<lambda>row. getitem row (snd p))"

definition set_cell :: "board \<Rightarrow> pos \<Rightarrow> piece \<Rightarrow> error + board" where
  "set_cell b p v =
     ebind (getitem b (fst p)) (\<lambda>row.
     ebind (setitem row (snd p) v) (\<lambda>row'.
     setitem b (fst p) row'))"

subsection \<open>initial_state\<close>

text \<open>
  \<^verbatim>\<open>board = [[EMPTY for _ in range(n)] for _ in range(m)]\<close>
  \<^verbatim>\<open>for j in range(n): board[0][j] = BLACK; board[m - 1][j] = WHITE\<close>
  (\<^verbatim>\<open>range\<close> of a negative number is empty).
\<close>

fun init_loop :: "nat list \<Rightarrow> int \<Rightarrow> board \<Rightarrow> error + board" where
  "init_loop [] m b = Inr b"
| "init_loop (j # js) m b =
     ebind (set_cell b (0, int j) BLACK) (\<lambda>b1.
     ebind (set_cell b1 (m - 1, int j) WHITE) (\<lambda>b2.
     init_loop js m b2))"

definition initial_state :: "int \<Rightarrow> int \<Rightarrow> error + board" where
  "initial_state m n =
     init_loop [0..<nat n] m (replicate (nat m) (replicate (nat n) EMPTY))"

subsection \<open>result\<close>

text \<open>
  \<^verbatim>\<open>m, n = len(board), len(board[0])\<close>, the assertion on \<^verbatim>\<open>dest\<close>, then on the copy
  \<^verbatim>\<open>new_board[di][dj] = new_board[i][j]; new_board[i][j] = EMPTY\<close>.
\<close>

definition result :: "board \<Rightarrow> pos \<Rightarrow> pos \<Rightarrow> error + board" where
  "result b depart dest =
     ebind (getitem b 0) (\<lambda>row0.
       let m = int (length b); n = int (length row0) in
       if \<not> (0 \<le> fst dest \<and> fst dest < m \<and> 0 \<le> snd dest \<and> snd dest < n)
       then Inl AssertionError
       else
         ebind (cell b depart) (\<lambda>v.
         ebind (set_cell b dest v) (\<lambda>b1.
         set_cell b1 depart EMPTY)))"

subsection \<open>actions\<close>

text \<open>
  \<^verbatim>\<open>possible_moves[key].append(v)\<close> on a \<^verbatim>\<open>defaultdict(list)\<close>: the dictionary is an
  association list in insertion order; a missing key is inserted at the end.
\<close>

fun dd_append :: "moves \<Rightarrow> pos \<Rightarrow> pos \<Rightarrow> moves" where
  "dd_append [] key v = [(key, [v])]"
| "dd_append ((k, vs) # pm) key v =
     (if k = key then (k, vs @ [v]) # pm else (k, vs) # dd_append pm key v)"

text \<open>
  The three tests of the loop body. Python's \<^verbatim>\<open>and\<close> short-circuits: the board is read
  only when the bounds tests before it hold.
\<close>

definition try_forward :: "board \<Rightarrow> int \<Rightarrow> pos \<Rightarrow> pos \<Rightarrow> moves \<Rightarrow> error + moves" where
  "try_forward b m src forward pm =
     (if 0 \<le> fst forward \<and> fst forward < m
      then ebind (cell b forward) (\<lambda>c.
             Inr (if c = EMPTY then dd_append pm src forward else pm))
      else Inr pm)"

definition try_diag ::
  "board \<Rightarrow> int \<Rightarrow> int \<Rightarrow> piece \<Rightarrow> pos \<Rightarrow> pos \<Rightarrow> moves \<Rightarrow> error + moves" where
  "try_diag b m n opponent src diag pm =
     (if 0 \<le> fst diag \<and> fst diag < m \<and> 0 \<le> snd diag \<and> snd diag < n
      then ebind (cell b diag) (\<lambda>c.
             Inr (if c = opponent then dd_append pm src diag else pm))
      else Inr pm)"

definition visit ::
  "board \<Rightarrow> int \<Rightarrow> int \<Rightarrow> piece \<Rightarrow> int \<Rightarrow> piece \<Rightarrow> int \<Rightarrow> int \<Rightarrow> piece \<Rightarrow> moves
     \<Rightarrow> error + moves" where
  "visit b m n turn direction opponent i j pc pm =
     (if pc \<noteq> turn then Inr pm
      else
        ebind (try_forward b m (i, j) (i + direction, j) pm) (\<lambda>pm1.
        ebind (try_diag b m n opponent (i, j) (i + direction, j - 1) pm1) (\<lambda>pm2.
        try_diag b m n opponent (i, j) (i + direction, j + 1) pm2)))"

text \<open>\<^verbatim>\<open>for j, piece in enumerate(row)\<close> and \<^verbatim>\<open>for i, row in enumerate(board)\<close>.\<close>

fun row_loop ::
  "board \<Rightarrow> int \<Rightarrow> int \<Rightarrow> piece \<Rightarrow> int \<Rightarrow> piece \<Rightarrow> int \<Rightarrow> (nat \<times> piece) list \<Rightarrow> moves
     \<Rightarrow> error + moves" where
  "row_loop b m n turn direction opponent i [] pm = Inr pm"
| "row_loop b m n turn direction opponent i ((j, pc) # rest) pm =
     ebind (visit b m n turn direction opponent i (int j) pc pm)
       (row_loop b m n turn direction opponent i rest)"

fun board_loop ::
  "board \<Rightarrow> int \<Rightarrow> int \<Rightarrow> piece \<Rightarrow> int \<Rightarrow> piece \<Rightarrow> (nat \<times> piece list) list \<Rightarrow> moves
     \<Rightarrow> error + moves" where
  "board_loop b m n turn direction opponent [] pm = Inr pm"
| "board_loop b m n turn direction opponent ((i, row) # rest) pm =
     ebind (row_loop b m n turn direction opponent (int i) (enumerate 0 row) pm)
       (board_loop b m n turn direction opponent rest)"

definition actions :: "board \<Rightarrow> piece \<Rightarrow> error + moves" where
  "actions b turn =
     ebind (getitem b 0) (\<lambda>row0.
       let m = int (length b); n = int (length row0) in
       if turn = WHITE then board_loop b m n turn (- 1) BLACK (enumerate 0 b) []
       else if turn = BLACK then board_loop b m n turn 1 WHITE (enumerate 0 b) []
       else Inl AssertionError)"

subsection \<open>terminal and utility\<close>

text \<open>
  \<^verbatim>\<open>terminal\<close> computes all four flags before combining them; \<^verbatim>\<open>actions\<close> is called
  only when the turn test before it holds. \<^verbatim>\<open>not actions(...)\<close> tests an empty dictionary.
\<close>

definition terminal :: "board \<Rightarrow> piece \<Rightarrow> error + bool" where
  "terminal b turn =
     ebind (getitem b 0) (\<lambda>top.
     let white_reached_top = list_ex (\<lambda>pc. pc = WHITE) top in
     ebind (getitem b (- 1)) (\<lambda>bottom.
     let black_reached_bottom = list_ex (\<lambda>pc. pc = BLACK) bottom in
     ebind (if turn = WHITE then ebind (actions b WHITE) (\<lambda>a. Inr (a = [])) else Inr False)
       (\<lambda>white_trapped.
     ebind (if turn = BLACK then ebind (actions b BLACK) (\<lambda>a. Inr (a = [])) else Inr False)
       (\<lambda>black_trapped.
     Inr (white_reached_top \<or> black_reached_bottom \<or> white_trapped \<or> black_trapped)))))"

definition utility :: "board \<Rightarrow> piece \<Rightarrow> error + piece" where
  "utility b turn =
     ebind (getitem b 0) (\<lambda>top.
     if list_ex (\<lambda>pc. pc = WHITE) top then Inr WHITE
     else
       ebind (getitem b (- 1)) (\<lambda>bottom.
       if list_ex (\<lambda>pc. pc = BLACK) bottom then Inr BLACK
       else
         ebind (if turn = BLACK then ebind (actions b BLACK) (\<lambda>a. Inr (a = [])) else Inr False)
           (\<lambda>black_trapped.
         if black_trapped then Inr WHITE
         else
           ebind (if turn = WHITE then ebind (actions b WHITE) (\<lambda>a. Inr (a = [])) else Inr False)
             (\<lambda>white_trapped.
           if white_trapped then Inr BLACK else Inl AssertionError))))"

subsection \<open>Node, Mistake, Knowledge (bot.py)\<close>

text \<open>
  An action is the two-element list \<^verbatim>\<open>[depart, dest]\<close>, modelled as a pair. A history is
  \<^verbatim>\<open>Node | None\<close>.
\<close>

datatype node = Node (state: board) (parent: "node option") (action: move)

datatype mistake = Mistake (configuration: board) (fault_action: move)

record knowledge =
  mistakes :: "mistake list"

definition notify :: "knowledge \<Rightarrow> mistake \<Rightarrow> knowledge" where
  "notify k mk = k\<lparr>mistakes := mistakes k @ [mk]\<rparr>"

definition is_mistake :: "knowledge \<Rightarrow> board \<Rightarrow> move \<Rightarrow> bool" where
  "is_mistake k cfg act = (Mistake cfg act \<in> set (mistakes k))"

definition catch22 :: "knowledge \<Rightarrow> board \<Rightarrow> error + bool" where
  "catch22 k cfg =
     ebind (actions cfg BLACK) (\<lambda>possible_moves.
       let total_moves = (\<Sum>ms \<leftarrow> map snd possible_moves. int (length ms));
           fault_tally = int (length (filter (\<lambda>mk. configuration mk = cfg) (mistakes k)))
       in Inr (total_moves - 1 = fault_tally))"

subsection \<open>review_reflect (cli.py, gui.py)\<close>

text \<open>
  The \<^verbatim>\<open>while\<close> loop returns the memory and the node it stopped at; the \<^verbatim>\<open>if\<close>
  after it records that node. The two files differ only in what they print.
\<close>

fun review_loop :: "knowledge \<Rightarrow> node option \<Rightarrow> error + (knowledge \<times> node option)" where
  "review_loop k None = Inr (k, None)"
| "review_loop k (Some (Node s p a)) =
     ebind (catch22 k s) (\<lambda>c.
       if c then review_loop (notify k (Mistake s a)) p
       else Inr (k, Some (Node s p a)))"

definition review_reflect :: "knowledge \<Rightarrow> node option \<Rightarrow> error + knowledge" where
  "review_reflect k history =
     ebind (review_loop k history) (\<lambda>(k', h).
       case h of
         None \<Rightarrow> Inr k'
       | Some nd \<Rightarrow> Inr (notify k' (Mistake (state nd) (action nd))))"

subsection \<open>Move selection of the automated side (play in cli.py and gui.py)\<close>

text \<open>
  The nested \<^verbatim>\<open>for\<close> iterations over \<^verbatim>\<open>actions(game_board, BLACK).items()\<close>: the first pair
  that is not a known mistake, if any.
\<close>

fun scan_moves :: "knowledge \<Rightarrow> board \<Rightarrow> pos \<Rightarrow> pos list \<Rightarrow> move option" where
  "scan_moves k b pawn [] = None"
| "scan_moves k b pawn (mv # ms) =
     (if \<not> is_mistake k b (pawn, mv) then Some (pawn, mv) else scan_moves k b pawn ms)"

fun scan_pawns :: "knowledge \<Rightarrow> board \<Rightarrow> moves \<Rightarrow> move option" where
  "scan_pawns k b [] = None"
| "scan_pawns k b ((pawn, ms) # rest) =
     (case scan_moves k b pawn ms of
        Some mv \<Rightarrow> Some mv
      | None \<Rightarrow> scan_pawns k b rest)"

text \<open>
  cli.py: when the iteration finds nothing, \<^verbatim>\<open>depart, (dest, *_) = list(possible_moves)[0]\<close>
  and then \<^verbatim>\<open>assert False\<close>.
\<close>

definition cli_select :: "knowledge \<Rightarrow> board \<Rightarrow> error + move" where
  "cli_select k b =
     ebind (actions b BLACK) (\<lambda>possible_moves.
       case scan_pawns k b possible_moves of
         Some mv \<Rightarrow> Inr mv
       | None \<Rightarrow>
           (case possible_moves of
              [] \<Rightarrow> Inl IndexError
            | (depart, ms) # _ \<Rightarrow>
                (case ms of [] \<Rightarrow> Inl ValueError | dest # _ \<Rightarrow> Inl AssertionError)))"

text \<open>One automated turn of cli.py: the selection, the new history node, the new board.\<close>

definition cli_black_turn ::
  "knowledge \<Rightarrow> board \<Rightarrow> node option \<Rightarrow> error + (board \<times> node option)" where
  "cli_black_turn k b history =
     ebind (cli_select k b) (\<lambda>(depart, dest).
     ebind (result b depart dest) (\<lambda>b'.
     Inr (b', Some (Node b history (depart, dest)))))"

text \<open>
  gui.py: the same iteration with the move made inside it and no \<^verbatim>\<open>else\<close> branch; when
  nothing is found the board and the history stay as they are and the turn passes.
\<close>

definition gui_black_turn ::
  "knowledge \<Rightarrow> board \<Rightarrow> node option \<Rightarrow> error + (board \<times> node option)" where
  "gui_black_turn k b history =
     ebind (actions b BLACK) (\<lambda>possible_moves.
       case scan_pawns k b possible_moves of
         Some (pawn, mv) \<Rightarrow>
           ebind (result b pawn mv) (\<lambda>b'. Inr (b', Some (Node b history (pawn, mv))))
       | None \<Rightarrow> Inr (b, history))"

subsection \<open>The game loop (play in cli.py and gui.py)\<close>

text \<open>
  One game of the \<^verbatim>\<open>while\<close> loop of \<^verbatim>\<open>play\<close>, from a board with white to move. The moves
  the human enters are the list; the loop is over when the board is terminal (reviewed when
  \<^verbatim>\<open>utility\<close> gives white) and waits when the list is used up.
\<close>

datatype game = Over knowledge | Waiting knowledge board "node option"

definition end_game :: "knowledge \<Rightarrow> board \<Rightarrow> piece \<Rightarrow> node option \<Rightarrow> error + game" where
  "end_game k b turn history =
     ebind (utility b turn) (\<lambda>w.
       if w = WHITE then ebind (review_reflect k history) (\<lambda>k'. Inr (Over k'))
       else Inr (Over k))"

text \<open>
  cli.py takes what \<^verbatim>\<open>white_chance\<close> returns as it is; each step below is one white
  iteration followed by one black iteration of the loop.
\<close>

fun cli_play :: "knowledge \<Rightarrow> board \<Rightarrow> node option \<Rightarrow> move list \<Rightarrow> error + game" where
  "cli_play k b history [] =
     ebind (terminal b WHITE) (\<lambda>t.
       if t then end_game k b WHITE history else Inr (Waiting k b history))"
| "cli_play k b history ((depart, dest) # inputs) =
     ebind (terminal b WHITE) (\<lambda>t.
       if t then end_game k b WHITE history
       else
         ebind (result b depart dest) (\<lambda>b1.
         ebind (terminal b1 BLACK) (\<lambda>t1.
           if t1 then end_game k b1 BLACK history
           else
             ebind (cli_black_turn k b1 history) (\<lambda>(b2, h2).
             cli_play k b2 h2 inputs))))"

text \<open>
  gui.py makes a dragged move only when
  \<^verbatim>\<open>pawn_action in actions(game_board, WHITE).get(pawn_selected, [])\<close>; otherwise the board
  stays and it is still white's turn. After black's iteration the turn always passes.
\<close>

definition gui_white_turn :: "board \<Rightarrow> pos \<Rightarrow> pos \<Rightarrow> error + board option" where
  "gui_white_turn b pawn_selected pawn_action =
     ebind (actions b WHITE) (\<lambda>pm.
       if pawn_action \<in> set (case map_of pm pawn_selected of None \<Rightarrow> [] | Some ds \<Rightarrow> ds)
       then ebind (result b pawn_selected pawn_action) (\<lambda>b'. Inr (Some b'))
       else Inr None)"

fun gui_play :: "knowledge \<Rightarrow> board \<Rightarrow> node option \<Rightarrow> move list \<Rightarrow> error + game" where
  "gui_play k b history [] =
     ebind (terminal b WHITE) (\<lambda>t.
       if t then end_game k b WHITE history else Inr (Waiting k b history))"
| "gui_play k b history ((pawn_selected, pawn_action) # inputs) =
     ebind (terminal b WHITE) (\<lambda>t.
       if t then end_game k b WHITE history
       else
         ebind (gui_white_turn b pawn_selected pawn_action) (\<lambda>moved.
           case moved of
             None \<Rightarrow> gui_play k b history inputs
           | Some b1 \<Rightarrow>
               ebind (terminal b1 BLACK) (\<lambda>t1.
                 if t1 then end_game k b1 BLACK history
                 else
                   ebind (gui_black_turn k b1 history) (\<lambda>(b2, h2).
                   gui_play k b2 h2 inputs))))"

section \<open>The rules as the specification words them\<close>

text \<open>
  A board is well formed when it has at least one row and all rows have the length of the
  first: the m by n grid of the specification.
\<close>

definition wf_board :: "board \<Rightarrow> bool" where
  "wf_board b = (b \<noteq> [] \<and> list_all (\<lambda>row. length row = length (hd b)) b)"

text \<open>A position of the grid, and the cell at it.\<close>

definition in_bounds :: "board \<Rightarrow> pos \<Rightarrow> bool" where
  "in_bounds b p =
     (0 \<le> fst p \<and> fst p < int (length b) \<and> 0 \<le> snd p \<and> snd p < int (length (hd b)))"

definition piece_at :: "board \<Rightarrow> pos \<Rightarrow> piece" where
  "piece_at b p = b ! nat (fst p) ! nat (snd p)"

text \<open>White advances toward row 0, black toward the last row.\<close>

definition forward_dir :: "piece \<Rightarrow> int" where
  "forward_dir side = (if side = WHITE then - 1 else 1)"

definition opposing :: "piece \<Rightarrow> piece" where
  "opposing side = (if side = WHITE then BLACK else WHITE)"

text \<open>The destinations of one source: straight, then diagonal-left, then diagonal-right.\<close>

definition destinations :: "board \<Rightarrow> piece \<Rightarrow> pos \<Rightarrow> pos list" where
  "destinations b side src =
     (let i = fst src; j = snd src; d = forward_dir side in
      filter (\<lambda>p. in_bounds b p \<and> piece_at b p = EMPTY) [(i + d, j)] @
      filter (\<lambda>p. in_bounds b p \<and> piece_at b p = opposing side) [(i + d, j - 1), (i + d, j + 1)])"

text \<open>Source positions in row-major order.\<close>

definition positions :: "board \<Rightarrow> pos list" where
  "positions b =
     concat (map (\<lambda>i. map (\<lambda>j. (int i, int j)) [0..<length (hd b)]) [0..<length b])"

text \<open>
  The entry of one source: absent when the source has no destination, never present with an
  empty list.
\<close>

definition slot :: "pos \<Rightarrow> pos list \<Rightarrow> moves" where
  "slot key vs = (if vs = [] then [] else [(key, vs)])"

definition entry :: "board \<Rightarrow> piece \<Rightarrow> pos \<Rightarrow> moves" where
  "entry b side src =
     (if piece_at b src = side then slot src (destinations b side src) else [])"

text \<open>
  The mapping of \<open>legal_moves\<close>: one entry per source that holds a piece of the side and
  has a destination, in row-major order.
\<close>

definition legal_moves :: "board \<Rightarrow> piece \<Rightarrow> moves" where
  "legal_moves b side = concat (map (entry b side) (positions b))"

text \<open>The entries contributed by one row, as the inner iteration of \<open>actions\<close> visits it.\<close>

definition row_entries :: "board \<Rightarrow> piece \<Rightarrow> nat \<Rightarrow> piece list \<Rightarrow> moves" where
  "row_entries b side i row =
     concat (map (\<lambda>(j, pc). if pc = side
        then slot (int i, int j) (destinations b side (int i, int j)) else []) (enumerate 0 row))"

text \<open>The (source, destination) pairs of a mapping, in its order.\<close>

definition flat_moves :: "moves \<Rightarrow> move list" where
  "flat_moves pm = concat (map (\<lambda>(src, ds). map (Pair src) ds) pm)"

text \<open>
  The enumeration of the specification: sources in row-major order, for each source that
  holds a piece of the side its destinations straight, left, right.
\<close>

definition enumerated_moves :: "board \<Rightarrow> piece \<Rightarrow> move list" where
  "enumerated_moves b side =
     concat (map (\<lambda>src. if piece_at b src = side then map (Pair src) (destinations b side src)
                          else []) (positions b))"

text \<open>The number of pieces on a board.\<close>

definition count_row :: "piece list \<Rightarrow> nat" where
  "count_row row = sum_list (map (\<lambda>c. if c = EMPTY then 0 else 1) row)"

definition count_pieces :: "board \<Rightarrow> nat" where
  "count_pieces b = sum_list (map count_row b)"

text \<open>The chain of a history, most recent node first, and the record a node gives.\<close>

fun walk :: "node option \<Rightarrow> node list" where
  "walk None = []"
| "walk (Some (Node s p a)) = Node s p a # walk p"

definition node_mistake :: "node \<Rightarrow> mistake" where
  "node_mistake nd = Mistake (state nd) (action nd)"

text \<open>The board with one cell replaced.\<close>

definition put :: "board \<Rightarrow> pos \<Rightarrow> piece \<Rightarrow> board" where
  "put b p v = b[nat (fst p) := (b ! nat (fst p))[nat (snd p) := v]]"

text \<open>The initial 3 by 3 board of cli.py and gui.py, for concrete evaluations.\<close>

definition board3 :: board where
  "board3 = [[BLACK, BLACK, BLACK], [EMPTY, EMPTY, EMPTY], [WHITE, WHITE, WHITE]]"

text \<open>Further boards, memories and a history for concrete evaluations.\<close>

definition board_won :: board where
  "board_won = [[WHITE, BLACK, BLACK], [EMPTY, EMPTY, EMPTY], [EMPTY, WHITE, WHITE]]"

definition board_col :: board where
  "board_col = [[BLACK], [EMPTY], [WHITE]]"

definition knowledge1 :: knowledge where
  "knowledge1 = \<lparr>mistakes = [Mistake board3 ((0, 0), (1, 0))]\<rparr>"

definition board32 :: board where
  "board32 = [[BLACK, BLACK], [EMPTY, EMPTY], [WHITE, WHITE]]"

definition knowledge_dup :: knowledge where
  "knowledge_dup =
     \<lparr>mistakes = [Mistake board32 ((0, 0), (1, 0)), Mistake board32 ((0, 0), (1, 0))]\<rparr>"

definition knowledge_one :: knowledge where
  "knowledge_one = \<lparr>mistakes = [Mistake board32 ((0, 0), (1, 0))]\<rparr>"

definition board_cap :: board where
  "board_cap = [[BLACK, EMPTY], [EMPTY, WHITE]]"

text \<open>The memory after the records of a list of nodes have been appended in order.\<close>

definition remember_all :: "knowledge \<Rightarrow> node list \<Rightarrow> knowledge" where
  "remember_all k nds = k\<lparr>mistakes := mistakes k @ map node_mistake nds\<rparr>"

text \<open>
  The number of leading nodes of a chain at which the Catch-22 test holds, each test made on
  the memory that already holds the records of the nodes before it.
\<close>

fun forced_prefix :: "knowledge \<Rightarrow> node list \<Rightarrow> nat" where
  "forced_prefix k [] = 0"
| "forced_prefix k (nd # nds) =
     (if catch22 k (state nd) = Inr True
      then Suc (forced_prefix (notify k (node_mistake nd)) nds) else 0)"

definition history2 :: "node option" where
  "history2 =
     Some (Node board_col (Some (Node board3 None ((0, 0), (1, 0)))) ((0, 0), (1, 0)))"

text \<open>
  Three games on the 3 by 3 board, given by white's moves, with the boards they pass through,
  the memory after the first and after the second, and the history of the third.
\<close>

definition board_mid :: board where
  "board_mid = [[BLACK, BLACK, BLACK], [EMPTY, WHITE, EMPTY], [WHITE, EMPTY, WHITE]]"

definition board_right :: board where
  "board_right = [[BLACK, BLACK, BLACK], [EMPTY, EMPTY, WHITE], [WHITE, WHITE, EMPTY]]"

definition board_star :: board where
  "board_star = [[EMPTY, BLACK, BLACK], [BLACK, WHITE, WHITE], [WHITE, EMPTY, EMPTY]]"

definition game1 :: "move list" where
  "game1 = [((2, 1), (1, 1)), ((2, 2), (1, 2)), ((1, 1), (0, 1))]"

definition game2 :: "move list" where
  "game2 = [((2, 1), (1, 1)), ((2, 2), (1, 2)), ((1, 2), (0, 2))]"

definition game3 :: "move list" where
  "game3 = [((2, 2), (1, 2)), ((2, 1), (1, 1))]"

definition knowledge_after1 :: knowledge where
  "knowledge_after1 = \<lparr>mistakes = [Mistake board_star ((0, 1), (1, 2))]\<rparr>"

definition knowledge_after2 :: knowledge where
  "knowledge_after2 =
     \<lparr>mistakes = [Mistake board_star ((0, 1), (1, 2)), Mistake board_star ((0, 2), (1, 1)),
                  Mistake board_mid ((0, 0), (1, 0))]\<rparr>"

definition history3 :: "node option" where
  "history3 = Some (Node board_right None ((0, 0), (1, 0)))"

section \<open>actions computes the mapping of the specification\<close>

lemma ebind_Inr [simp]: "ebind (Inr v) f = f v"
  by (simp add: ebind_def)

lemma ebind_Inl [simp]: "ebind (Inl e) f = Inl e"
  by (simp add: ebind_def)

lemma norm_index_nonneg: "0 \<le> i \<Longrightarrow> i < int len \<Longrightarrow> norm_index len i = Inr (nat i)"
  by (simp add: norm_index_def)

lemma getitem_nonneg: "0 \<le> i \<Longrightarrow> i < int (length xs) \<Longrightarrow> getitem xs i = Inr (xs ! nat i)"
  by (simp add: getitem_def norm_index_nonneg)

lemma wf_row_length: "wf_board b \<Longrightarrow> k < length b \<Longrightarrow> length (b ! k) = length (hd b)"
  by (simp add: wf_board_def list_all_length)

lemma cell_in_bounds:
  assumes "wf_board b" "in_bounds b p"
  shows "cell b p = Inr (piece_at b p)"
proof -
  from assms(2) have r: "0 \<le> fst p" "fst p < int (length b)"
    and c: "0 \<le> snd p" "snd p < int (length (hd b))"
    by (simp_all add: in_bounds_def)
  from r have "nat (fst p) < length b" by simp
  then have "length (b ! nat (fst p)) = length (hd b)"
    using assms(1) by (rule wf_row_length [rotated])
  then have "getitem (b ! nat (fst p)) (snd p) = Inr (b ! nat (fst p) ! nat (snd p))"
    using c by (simp add: getitem_nonneg)
  then show ?thesis
    using r by (simp add: cell_def piece_at_def getitem_nonneg)
qed

lemma dd_append_fresh: "key \<notin> fst ` set pm \<Longrightarrow> dd_append pm key v = pm @ [(key, [v])]"
  by (induction pm) auto

lemma dd_append_last:
  "key \<notin> fst ` set pm \<Longrightarrow> dd_append (pm @ [(key, vs)]) key v = pm @ [(key, vs @ [v])]"
  by (induction pm) auto

lemma try_forward_spec:
  assumes "wf_board b" "0 \<le> snd p" "snd p < int (length (hd b))"
  shows "try_forward b (int (length b)) src p pm =
           Inr (if in_bounds b p \<and> piece_at b p = EMPTY then dd_append pm src p else pm)"
proof (cases "in_bounds b p")
  case True
  then show ?thesis using assms by (simp add: try_forward_def cell_in_bounds) (simp add: in_bounds_def)
next
  case False
  then show ?thesis using assms by (auto simp add: try_forward_def in_bounds_def)
qed

lemma try_diag_spec:
  assumes "wf_board b"
  shows "try_diag b (int (length b)) (int (length (hd b))) opp src p pm =
           Inr (if in_bounds b p \<and> piece_at b p = opp then dd_append pm src p else pm)"
proof (cases "in_bounds b p")
  case True
  then show ?thesis using assms by (simp add: try_diag_def cell_in_bounds) (simp add: in_bounds_def)
next
  case False
  then show ?thesis using assms by (auto simp add: try_diag_def in_bounds_def)
qed

lemma dd_append_slot:
  assumes "key \<notin> fst ` set pm"
  shows "(if c then dd_append (pm @ slot key vs) key v else pm @ slot key vs) =
           pm @ slot key (vs @ (if c then [v] else []))"
  using assms by (cases "vs = []") (simp_all add: slot_def dd_append_fresh dd_append_last)

lemma destinations_alt:
  "destinations b side (i, j) =
     (if in_bounds b (i + forward_dir side, j) \<and> piece_at b (i + forward_dir side, j) = EMPTY
      then [(i + forward_dir side, j)] else []) @
     (if in_bounds b (i + forward_dir side, j - 1) \<and>
         piece_at b (i + forward_dir side, j - 1) = opposing side
      then [(i + forward_dir side, j - 1)] else []) @
     (if in_bounds b (i + forward_dir side, j + 1) \<and>
         piece_at b (i + forward_dir side, j + 1) = opposing side
      then [(i + forward_dir side, j + 1)] else [])"
  by (simp add: destinations_def Let_def)

lemma visit_spec:
  assumes wf: "wf_board b" and j: "0 \<le> j" "j < int (length (hd b))"
    and fresh: "(i, j) \<notin> fst ` set pm"
  shows "visit b (int (length b)) (int (length (hd b))) side (forward_dir side) (opposing side) i j pc pm =
           Inr (pm @ (if pc = side then slot (i, j) (destinations b side (i, j)) else []))"
proof (cases "pc = side")
  case False
  then show ?thesis by (simp add: visit_def)
next
  case True
  let ?d = "forward_dir side"
  have pm0: "pm = pm @ slot (i, j) []" by (simp add: slot_def)
  have s1: "try_forward b (int (length b)) (i, j) (i + ?d, j) (pm @ slot (i, j) []) =
              Inr (pm @ slot (i, j) ([] @ (if in_bounds b (i + ?d, j) \<and> piece_at b (i + ?d, j) = EMPTY
                                          then [(i + ?d, j)] else [])))"
    using j by (simp only: try_forward_spec [OF wf] dd_append_slot [OF fresh] snd_conv)
  have s2: "\<And>vs p. try_diag b (int (length b)) (int (length (hd b))) (opposing side) (i, j) p
                (pm @ slot (i, j) vs) =
              Inr (pm @ slot (i, j) (vs @ (if in_bounds b p \<and> piece_at b p = opposing side
                                          then [p] else [])))"
    by (simp only: try_diag_spec [OF wf] dd_append_slot [OF fresh])
  have "visit b (int (length b)) (int (length (hd b))) side ?d (opposing side) i j pc
          (pm @ slot (i, j) []) = Inr (pm @ slot (i, j) (destinations b side (i, j)))"
    unfolding visit_def using True
    by (simp only: s1 s2 ebind_Inr destinations_alt append_Nil append_assoc not_True_eq_False
        if_False simp_thms)
  then show ?thesis using True pm0 by simp
qed


lemma slot_keys: "fst ` set (slot key vs) \<subseteq> {key}"
  by (simp add: slot_def)

lemma row_loop_spec:
  assumes wf: "wf_board b"
  shows "j0 + length xs \<le> length (hd b) \<Longrightarrow>
         (\<forall>k \<in> fst ` set pm. fst k = i \<longrightarrow> snd k < int j0) \<Longrightarrow>
         row_loop b (int (length b)) (int (length (hd b))) side (forward_dir side) (opposing side)
           i (enumerate j0 xs) pm =
         Inr (pm @ concat (map (\<lambda>(j, pc). if pc = side
                then slot (i, int j) (destinations b side (i, int j)) else []) (enumerate j0 xs)))"
proof (induction xs arbitrary: j0 pm)
  case Nil
  then show ?case by simp
next
  case (Cons x xs)
  let ?e = "if x = side then slot (i, int j0) (destinations b side (i, int j0)) else []"
  have fresh: "(i, int j0) \<notin> fst ` set pm"
    using Cons.prems(2) by force
  have v: "visit b (int (length b)) (int (length (hd b))) side (forward_dir side) (opposing side)
             i (int j0) x pm = Inr (pm @ ?e)"
    using Cons.prems(1) by (intro visit_spec [OF wf _ _ fresh]) simp_all
  have keys: "\<forall>k \<in> fst ` set (pm @ ?e). fst k = i \<longrightarrow> snd k < int (Suc j0)"
    using Cons.prems(2) by (auto simp: slot_def)
  have len: "Suc j0 + length xs \<le> length (hd b)"
    using Cons.prems(1) by simp
  show ?case
    by (simp add: v Cons.IH [OF len keys])
qed

lemma row_entries_keys: "k \<in> fst ` set (row_entries b side i row) \<Longrightarrow> fst k = int i"
  by (auto simp: row_entries_def slot_def split: if_splits)

lemma board_loop_spec:
  assumes wf: "wf_board b"
  shows "(\<forall>row \<in> set rs. length row \<le> length (hd b)) \<Longrightarrow>
         (\<forall>k \<in> fst ` set pm. fst k < int i0) \<Longrightarrow>
         board_loop b (int (length b)) (int (length (hd b))) side (forward_dir side) (opposing side)
           (enumerate i0 rs) pm =
         Inr (pm @ concat (map (\<lambda>(i, row). row_entries b side i row) (enumerate i0 rs)))"
proof (induction rs arbitrary: i0 pm)
  case Nil
  then show ?case by simp
next
  case (Cons r rs)
  have r: "row_loop b (int (length b)) (int (length (hd b))) side (forward_dir side) (opposing side)
             (int i0) (enumerate 0 r) pm = Inr (pm @ row_entries b side i0 r)"
    unfolding row_entries_def using Cons.prems
    by (intro row_loop_spec [OF wf]) auto
  have keys: "\<forall>k \<in> fst ` set (pm @ row_entries b side i0 r). fst k < int (Suc i0)"
    using Cons.prems(2) row_entries_keys [of _ b side i0 r] by fastforce
  have rows: "\<forall>row \<in> set rs. length row \<le> length (hd b)"
    using Cons.prems(1) by simp
  show ?case
    by (simp add: r Cons.IH [OF rows keys])
qed

lemma enumerate_nth: "enumerate 0 xs = map (\<lambda>k. (k, xs ! k)) [0..<length xs]"
  by (rule nth_equalityI) (simp_all add: nth_enumerate_eq)

lemma concat_map_concat:
  "concat (map f (concat xss)) = concat (map (\<lambda>xs. concat (map f xs)) xss)"
  by (induction xss) simp_all

lemma row_entries_entry:
  assumes "wf_board b" "i < length b"
  shows "row_entries b side i (b ! i) =
           concat (map (entry b side) (map (\<lambda>j. (int i, int j)) [0..<length (hd b)]))"
  using assms
  by (simp add: row_entries_def enumerate_nth wf_row_length entry_def piece_at_def comp_def)

lemma legal_moves_rows:
  assumes "wf_board b"
  shows "concat (map (\<lambda>(i, row). row_entries b side i row) (enumerate 0 b)) = legal_moves b side"
proof -
  have "map (\<lambda>(i, row). row_entries b side i row) (enumerate 0 b) =
          map (\<lambda>i. concat (map (entry b side) (map (\<lambda>j. (int i, int j)) [0..<length (hd b)])))
            [0..<length b]"
    using assms by (simp add: enumerate_nth row_entries_entry)
  then show ?thesis
    by (simp add: legal_moves_def positions_def concat_map_concat comp_def)
qed

lemma actions_refines:
  assumes wf: "wf_board b" and side: "side = WHITE \<or> side = BLACK"
  shows "actions b side = Inr (legal_moves b side)"
proof -
  have ne: "b \<noteq> []" using wf by (simp add: wf_board_def)
  then have g: "getitem b 0 = Inr (hd b)"
    by (simp add: getitem_nonneg hd_conv_nth)
  have rows: "\<forall>row \<in> set b. length row \<le> length (hd b)"
  proof
    fix row assume "row \<in> set b"
    then obtain k where k: "k < length b" "b ! k = row"
      by (auto simp: in_set_conv_nth)
    from wf_row_length [OF wf k(1)] k(2) show "length row \<le> length (hd b)"
      by simp
  qed
  have loop: "board_loop b (int (length b)) (int (length (hd b))) side (forward_dir side)
        (opposing side) (enumerate 0 b) [] = Inr (legal_moves b side)"
  proof -
    have "board_loop b (int (length b)) (int (length (hd b))) side (forward_dir side)
        (opposing side) (enumerate 0 b) [] =
        Inr ([] @ concat (map (\<lambda>(i, row). row_entries b side i row) (enumerate 0 b)))"
      using rows by (intro board_loop_spec [OF wf]) simp_all
    then show ?thesis
      by (simp only: legal_moves_rows [OF wf] append_Nil)
  qed
  from side show ?thesis
  proof
    assume "side = WHITE"
    with loop show ?thesis by (simp add: actions_def g forward_dir_def opposing_def)
  next
    assume "side = BLACK"
    with loop show ?thesis by (simp add: actions_def g forward_dir_def opposing_def)
  qed
qed

section \<open>result\<close>

lemma setitem_nonneg:
  "0 \<le> i \<Longrightarrow> i < int (length xs) \<Longrightarrow> setitem xs i v = Inr (xs[nat i := v])"
  by (simp add: setitem_def norm_index_nonneg)

lemma in_bounds_row: "in_bounds b p \<Longrightarrow> nat (fst p) < length b"
  by (simp add: in_bounds_def nat_less_iff)

lemma in_bounds_col:
  assumes "wf_board b" "in_bounds b p"
  shows "nat (snd p) < length (b ! nat (fst p))"
proof -
  have "length (b ! nat (fst p)) = length (hd b)"
    using assms by (intro wf_row_length in_bounds_row)
  then show ?thesis using assms(2) by (simp add: in_bounds_def nat_less_iff)
qed

lemma set_cell_in_bounds:
  assumes "wf_board b" "in_bounds b p"
  shows "set_cell b p v = Inr (put b p v)"
proof -
  from assms(2) have r: "0 \<le> fst p" "fst p < int (length b)" and c: "0 \<le> snd p"
    by (simp_all add: in_bounds_def)
  have "snd p < int (length (b ! nat (fst p)))"
    using in_bounds_col [OF assms] c by simp
  then have "setitem (b ! nat (fst p)) (snd p) v = Inr ((b ! nat (fst p))[nat (snd p) := v])"
    using c by (simp add: setitem_nonneg)
  then show ?thesis
    using r by (simp add: set_cell_def put_def getitem_nonneg setitem_nonneg)
qed

lemma length_put [simp]: "length (put b p v) = length b"
  by (simp add: put_def)

lemma length_row_put [simp]: "length (put b p v ! k) = length (b ! k)"
  by (cases "nat (fst p) < length b") (simp_all add: put_def nth_list_update list_update_beyond)

lemma hd_put_length:
  assumes "b \<noteq> []"
  shows "length (hd (put b p v)) = length (hd b)"
proof -
  have "put b p v \<noteq> []" using assms by (simp add: put_def)
  then have "hd (put b p v) = put b p v ! 0" by (rule hd_conv_nth)
  moreover have "hd b = b ! 0" using assms by (rule hd_conv_nth)
  ultimately show ?thesis by simp
qed

lemma wf_board_put:
  assumes "wf_board b"
  shows "wf_board (put b p v)"
proof -
  have ne: "b \<noteq> []" using assms by (simp add: wf_board_def)
  have "\<forall>k < length (put b p v). length (put b p v ! k) = length (hd (put b p v))"
    using assms by (simp add: hd_put_length [OF ne] wf_row_length)
  moreover have "put b p v \<noteq> []" using ne by (simp add: put_def)
  ultimately show ?thesis by (simp add: wf_board_def list_all_length)
qed

lemma in_bounds_put: "wf_board b \<Longrightarrow> in_bounds (put b p v) q = in_bounds b q"
  by (simp add: in_bounds_def hd_put_length wf_board_def)

lemma piece_at_put:
  assumes "wf_board b" "in_bounds b p" "in_bounds b q"
  shows "piece_at (put b p v) q = (if q = p then v else piece_at b q)"
proof -
  have p: "nat (fst p) < length b" "nat (snd p) < length (b ! nat (fst p))"
    using assms by (simp_all add: in_bounds_row in_bounds_col)
  have nn: "0 \<le> fst p" "0 \<le> snd p" "0 \<le> fst q" "0 \<le> snd q"
    using assms by (simp_all add: in_bounds_def)
  show ?thesis
  proof (cases "fst q = fst p")
    case True
    then show ?thesis
      using p nn by (auto simp: put_def piece_at_def nth_list_update prod_eq_iff)
  next
    case False
    then have "nat (fst q) \<noteq> nat (fst p)" using nn by simp
    then show ?thesis using False by (auto simp: put_def piece_at_def nth_list_update)
  qed
qed

lemma count_row_update:
  "j < length row \<Longrightarrow>
     count_row (row[j := v]) + (if row ! j = EMPTY then 0 else 1) =
     count_row row + (if v = EMPTY then 0 else 1)"
proof (induction row arbitrary: j)
  case Nil
  then show ?case by simp
next
  case (Cons c row)
  then show ?case by (cases j) (auto simp: count_row_def)
qed

lemma sum_list_update_nat:
  "i < length xs \<Longrightarrow> sum_list (xs[i := x]) + xs ! i = sum_list xs + (x::nat)"
proof (induction xs arbitrary: i)
  case Nil
  then show ?case by simp
next
  case (Cons a xs)
  then show ?case by (cases i) auto
qed

lemma count_pieces_put:
  assumes "wf_board b" "in_bounds b p"
  shows "count_pieces (put b p v) + (if piece_at b p = EMPTY then 0 else 1) =
         count_pieces b + (if v = EMPTY then 0 else 1)"
proof -
  let ?i = "nat (fst p)" and ?j = "nat (snd p)"
  have i: "?i < length b" and j: "?j < length (b ! ?i)"
    using assms by (simp_all add: in_bounds_row in_bounds_col)
  have "count_pieces (put b p v) + count_row (b ! ?i) =
          count_pieces b + count_row ((b ! ?i)[?j := v])"
    using sum_list_update_nat [of ?i "map count_row b" "count_row ((b ! ?i)[?j := v])"] i
    by (simp add: count_pieces_def put_def map_update)
  moreover note count_row_update [OF j, of v]
  ultimately show ?thesis by (simp add: piece_at_def)
qed

lemma result_in_bounds:
  assumes "wf_board b" "in_bounds b depart" "in_bounds b dest"
  shows "result b depart dest = Inr (put (put b dest (piece_at b depart)) depart EMPTY)"
proof -
  have g: "getitem b 0 = Inr (hd b)"
    using assms(1) by (simp add: wf_board_def getitem_nonneg hd_conv_nth)
  have d: "0 \<le> fst dest \<and> fst dest < int (length b) \<and> 0 \<le> snd dest \<and>
           snd dest < int (length (hd b))"
    using assms(3) by (simp add: in_bounds_def)
  have s2: "set_cell (put b dest (piece_at b depart)) depart EMPTY =
              Inr (put (put b dest (piece_at b depart)) depart EMPTY)"
    using assms by (intro set_cell_in_bounds wf_board_put) (simp_all add: in_bounds_put)
  show ?thesis
    using d by (simp add: result_def g cell_in_bounds [OF assms(1,2)]
        set_cell_in_bounds [OF assms(1,3)] s2)
qed


text \<open>
  Claim C10, as amended. On a well-formed board, \<open>result\<close> with departure and destination
  the same in-bounds position \<open>p\<close> succeeds; the board it returns has the same shape, cell
  \<open>p\<close> empty and every other cell unchanged. When \<open>p\<close> held a piece, that piece is gone:
  the number of pieces is smaller by exactly one. When \<open>p\<close> was empty, the board returned
  is equal to the board given, with the same number of pieces.
\<close>

theorem result_same_square:
  assumes wf: "wf_board b" and p: "in_bounds b p"
  shows "\<exists>b'. result b p p = Inr b' \<and> wf_board b' \<and> length b' = length b \<and>
           length (hd b') = length (hd b) \<and> piece_at b' p = EMPTY \<and>
           (\<forall>q. in_bounds b q \<and> q \<noteq> p \<longrightarrow> piece_at b' q = piece_at b q) \<and>
           (piece_at b p \<noteq> EMPTY \<longrightarrow>
              count_pieces b' < count_pieces b \<and> count_pieces b' + 1 = count_pieces b) \<and>
           (piece_at b p = EMPTY \<longrightarrow> b' = b \<and> count_pieces b' = count_pieces b)"
proof -
  let ?b1 = "put b p (piece_at b p)"
  let ?b2 = "put ?b1 p EMPTY"
  have same: "?b1 = b" by (simp add: put_def piece_at_def)
  have wf1: "wf_board ?b1" using wf by (rule wf_board_put)
  have p1: "in_bounds ?b1 p" using wf p by (simp add: in_bounds_put)
  have ne: "b \<noteq> []" using wf by (simp add: wf_board_def)
  have r: "result b p p = Inr ?b2" using wf p p by (rule result_in_bounds)
  have w: "wf_board ?b2" using wf1 by (rule wf_board_put)
  have l: "length ?b2 = length b" by simp
  have ne1: "?b1 \<noteq> []" using ne by (simp add: put_def)
  have h: "length (hd ?b2) = length (hd b)"
    by (simp only: hd_put_length [OF ne1] hd_put_length [OF ne])
  have at1: "piece_at ?b1 p = piece_at b p"
    using wf p by (simp add: piece_at_put)
  have e: "piece_at ?b2 p = EMPTY"
    using wf1 p1 by (simp add: piece_at_put)
  have o: "\<forall>q. in_bounds b q \<and> q \<noteq> p \<longrightarrow> piece_at ?b2 q = piece_at b q"
    using wf wf1 p p1 by (simp add: piece_at_put in_bounds_put)
  have c1: "count_pieces ?b1 = count_pieces b"
    using count_pieces_put [OF wf p, of "piece_at b p"] by simp
  have c2: "count_pieces ?b2 + (if piece_at b p = EMPTY then 0 else 1) = count_pieces b"
    using count_pieces_put [OF wf1 p1, of EMPTY] at1 c1 by simp
  have c: "piece_at b p \<noteq> EMPTY \<longrightarrow>
             count_pieces ?b2 < count_pieces b \<and> count_pieces ?b2 + 1 = count_pieces b"
    using c2 by auto
  have u: "piece_at b p = EMPTY \<longrightarrow> ?b2 = b \<and> count_pieces ?b2 = count_pieces b"
  proof
    assume em: "piece_at b p = EMPTY"
    have "put b p EMPTY = b" using same by (simp only: em)
    then have "?b2 = b" by (simp only: same)
    then show "?b2 = b \<and> count_pieces ?b2 = count_pieces b" by simp
  qed
  from r w l h e o c u show ?thesis by blast
qed

lemma wf_board3: "wf_board board3"
  by (simp add: wf_board_def board3_def)

theorem result_same_square_witness:
  "wf_board board3 \<and> in_bounds board3 (0, 1) \<and> piece_at board3 (0, 1) \<noteq> EMPTY \<and>
   (\<exists>b'. result board3 (0, 1) (0, 1) = Inr b' \<and> piece_at b' (0, 1) = EMPTY \<and>
      count_pieces b' + 1 = count_pieces board3)"
proof -
  have b: "in_bounds board3 (0, 1)" by (simp add: in_bounds_def board3_def)
  have n: "piece_at board3 (0, 1) \<noteq> EMPTY" by (simp add: piece_at_def board3_def)
  from result_same_square [OF wf_board3 b] n wf_board3 b show ?thesis by blast
qed

text \<open>
  The centre of the initial 3 by 3 board is an in-bounds position that holds no piece: there
  \<open>result\<close> returns the board as it was, and no piece count decreases.
\<close>

theorem result_empty_square_counterexample:
  "in_bounds board3 (1, 1) \<and> piece_at board3 (1, 1) = EMPTY \<and>
   result board3 (1, 1) (1, 1) = Inr board3 \<and> count_pieces board3 = 6"
proof -
  have 1: "in_bounds board3 (1, 1)" by (simp add: in_bounds_def board3_def)
  have 2: "piece_at board3 (1, 1) = EMPTY" by (simp add: piece_at_def board3_def)
  have 3: "result board3 (1, 1) (1, 1) = Inr board3" by code_simp
  have 4: "count_pieces board3 = 6" by code_simp
  from 1 2 3 4 show ?thesis by blast
qed

lemma getitem_IndexError:
  "i < - int (length xs) \<or> int (length xs) \<le> i \<Longrightarrow> getitem xs i = Inl IndexError"
  by (auto simp: getitem_def norm_index_def)

lemma getitem_cases:
  "getitem xs i = Inl IndexError \<or> (\<exists>k < length xs. getitem xs i = Inr (xs ! k))"
proof (cases "i < - int (length xs) \<or> int (length xs) \<le> i")
  case True
  then show ?thesis by (simp add: getitem_IndexError)
next
  case False
  let ?k = "nat (if i < 0 then i + int (length xs) else i)"
  have "?k < length xs" using False by (auto simp: nat_less_iff)
  moreover have "getitem xs i = Inr (xs ! ?k)"
    using False by (auto simp: getitem_def norm_index_def)
  ultimately show ?thesis by blast
qed

lemma cell_IndexError:
  assumes wf: "wf_board b"
    and out: "fst p < - int (length b) \<or> int (length b) \<le> fst p \<or>
              snd p < - int (length (hd b)) \<or> int (length (hd b)) \<le> snd p"
  shows "cell b p = Inl IndexError"
proof -
  from getitem_cases [of b "fst p"] show ?thesis
  proof
    assume "getitem b (fst p) = Inl IndexError"
    then show ?thesis by (simp add: cell_def)
  next
    assume "\<exists>k < length b. getitem b (fst p) = Inr (b ! k)"
    then obtain k where k: "k < length b" "getitem b (fst p) = Inr (b ! k)" by blast
    have len: "length (b ! k) = length (hd b)" using wf k(1) by (rule wf_row_length)
    have row: "\<not> (fst p < - int (length b) \<or> int (length b) \<le> fst p)"
      using k(2) getitem_IndexError [of "fst p" b] by auto
    with out have "snd p < - int (length (b ! k)) \<or> int (length (b ! k)) \<le> snd p"
      using len by simp
    then have "getitem (b ! k) (snd p) = Inl IndexError" by (rule getitem_IndexError)
    then show ?thesis using k(2) by (simp add: cell_def)
  qed
qed

text \<open>
  Claim C8, as amended. On a well-formed board \<open>result\<close> fails its assertion whenever the
  destination is out of bounds. With the destination in bounds it raises \<open>IndexError\<close> whenever
  the departure row is outside \<open>[-m, m)\<close> or the departure column is outside \<open>[-n, n)\<close>.
  It checks nothing else: for any two in-bounds positions it returns a board, whether or not
  the move is legal.
\<close>

theorem result_failures:
  assumes wf: "wf_board b"
  shows "(\<not> in_bounds b dest \<longrightarrow> result b depart dest = Inl AssertionError) \<and>
         (in_bounds b dest \<and>
            (fst depart < - int (length b) \<or> int (length b) \<le> fst depart \<or>
             snd depart < - int (length (hd b)) \<or> int (length (hd b)) \<le> snd depart) \<longrightarrow>
            result b depart dest = Inl IndexError) \<and>
         (in_bounds b dest \<and> in_bounds b depart \<longrightarrow> (\<exists>b'. result b depart dest = Inr b'))"
proof -
  have g: "getitem b 0 = Inr (hd b)"
    using wf by (simp add: wf_board_def getitem_nonneg hd_conv_nth)
  have a: "\<not> in_bounds b dest \<longrightarrow> result b depart dest = Inl AssertionError"
    by (simp add: result_def g in_bounds_def)
  have i: "in_bounds b dest \<and>
            (fst depart < - int (length b) \<or> int (length b) \<le> fst depart \<or>
             snd depart < - int (length (hd b)) \<or> int (length (hd b)) \<le> snd depart) \<longrightarrow>
            result b depart dest = Inl IndexError"
  proof
    assume h: "in_bounds b dest \<and>
            (fst depart < - int (length b) \<or> int (length b) \<le> fst depart \<or>
             snd depart < - int (length (hd b)) \<or> int (length (hd b)) \<le> snd depart)"
    then have c: "cell b depart = Inl IndexError" using wf by (intro cell_IndexError) simp_all
    from h have "0 \<le> fst dest \<and> fst dest < int (length b) \<and> 0 \<le> snd dest \<and>
           snd dest < int (length (hd b))" by (simp add: in_bounds_def)
    then show "result b depart dest = Inl IndexError"
      by (simp add: result_def g c)
  qed
  have s: "in_bounds b dest \<and> in_bounds b depart \<longrightarrow> (\<exists>b'. result b depart dest = Inr b')"
    using result_in_bounds [OF wf] by blast
  from a i s show ?thesis by blast
qed

theorem result_failures_witness:
  "wf_board board3 \<and> \<not> in_bounds board3 (3, 0) \<and> in_bounds board3 (1, 0) \<and>
   in_bounds board3 (2, 2) \<and>
   result board3 (0, 0) (3, 0) = Inl AssertionError \<and>
   result board3 (3, 0) (1, 0) = Inl IndexError \<and>
   (\<exists>b'. result board3 (2, 2) (1, 0) = Inr b')"
proof -
  have o: "\<not> in_bounds board3 (3, 0)" and i: "in_bounds board3 (1, 0)"
    and j: "in_bounds board3 (2, 2)"
    by (simp_all add: in_bounds_def board3_def)
  have l: "int (length board3) \<le> fst (3::int, 0::int)" by (simp add: board3_def)
  from result_failures [OF wf_board3, of "(3, 0)" "(0, 0)"] o
  have 1: "result board3 (0, 0) (3, 0) = Inl AssertionError" by blast
  from result_failures [OF wf_board3, of "(1, 0)" "(3, 0)"] i l
  have 2: "result board3 (3, 0) (1, 0) = Inl IndexError" by blast
  from result_failures [OF wf_board3, of "(1, 0)" "(2, 2)"] i j
  have 3: "\<exists>b'. result board3 (2, 2) (1, 0) = Inr b'" by blast
  from wf_board3 o i j 1 2 3 show ?thesis by blast
qed

text \<open>
  The departure \<open>(-1, 0)\<close> is not a position of the 3 by 3 board, yet \<open>result\<close> does not
  fail: Python reads row \<open>-1\<close> as the last row and the white piece of \<open>(2, 0)\<close> moves.
\<close>

theorem result_negative_departure_counterexample:
  "\<not> in_bounds board3 (- 1, 0) \<and>
   result board3 (- 1, 0) (1, 0) =
     Inr [[BLACK, BLACK, BLACK], [WHITE, EMPTY, EMPTY], [EMPTY, WHITE, WHITE]]"
  by (simp add: in_bounds_def board3_def result_def getitem_def setitem_def norm_index_def
      cell_def set_cell_def)

section \<open>initial_state\<close>

lemma init_loop_cells:
  shows "wf_board b \<Longrightarrow> \<forall>j \<in> set js. j < length (hd b) \<Longrightarrow>
     \<exists>b'. init_loop js (int (length b)) b = Inr b' \<and> wf_board b' \<and> length b' = length b \<and>
       length (hd b') = length (hd b) \<and>
       (\<forall>q. in_bounds b q \<longrightarrow> piece_at b' q =
          (if nat (snd q) \<in> set js \<and> fst q = int (length b) - 1 then WHITE
           else if nat (snd q) \<in> set js \<and> fst q = 0 then BLACK
           else piece_at b q))"
proof (induction js arbitrary: b)
  case Nil
  then show ?case by simp
next
  case (Cons j js)
  let ?m = "int (length b)"
  let ?b1 = "put b (0, int j) BLACK"
  let ?b2 = "put ?b1 (?m - 1, int j) WHITE"
  have ne: "b \<noteq> []" using Cons.prems(1) by (simp add: wf_board_def)
  have j: "j < length (hd b)" using Cons.prems(2) by simp
  have top: "in_bounds b (0, int j)" and bot: "in_bounds b (?m - 1, int j)"
    using ne j by (simp_all add: in_bounds_def)
  have wf1: "wf_board ?b1" using Cons.prems(1) by (rule wf_board_put)
  have wf2: "wf_board ?b2" using wf1 by (rule wf_board_put)
  have ne1: "?b1 \<noteq> []" using ne by (simp add: put_def)
  have h2: "length (hd ?b2) = length (hd b)"
    by (simp only: hd_put_length [OF ne1] hd_put_length [OF ne])
  have l2: "length ?b2 = length b" by simp
  have bot1: "in_bounds ?b1 (?m - 1, int j)"
    using bot Cons.prems(1) by (simp add: in_bounds_put)
  have s1: "set_cell b (0, int j) BLACK = Inr ?b1"
    using Cons.prems(1) top by (rule set_cell_in_bounds)
  have s2: "set_cell ?b1 (?m - 1, int j) WHITE = Inr ?b2"
    using wf1 bot1 by (rule set_cell_in_bounds)
  have ib2: "\<And>q. in_bounds ?b2 q = in_bounds b q"
    using Cons.prems(1) wf1 by (simp add: in_bounds_put)
  have at2: "\<And>q. in_bounds b q \<Longrightarrow> piece_at ?b2 q =
      (if q = (?m - 1, int j) then WHITE else if q = (0, int j) then BLACK else piece_at b q)"
    using Cons.prems(1) wf1 top bot1 by (simp add: piece_at_put in_bounds_put)
  have js: "\<forall>j \<in> set js. j < length (hd ?b2)"
    using Cons.prems(2) h2 by simp
  from Cons.IH [OF wf2 js] obtain b' where
    b': "init_loop js (int (length ?b2)) ?b2 = Inr b'" "wf_board b'" "length b' = length ?b2"
      "length (hd b') = length (hd ?b2)"
      "\<forall>q. in_bounds ?b2 q \<longrightarrow> piece_at b' q =
          (if nat (snd q) \<in> set js \<and> fst q = int (length ?b2) - 1 then WHITE
           else if nat (snd q) \<in> set js \<and> fst q = 0 then BLACK
           else piece_at ?b2 q)"
    by blast
  have run: "init_loop (j # js) ?m b = Inr b'"
    using b'(1) by (simp add: s1 s2)
  have cells: "\<forall>q. in_bounds b q \<longrightarrow> piece_at b' q =
          (if nat (snd q) \<in> set (j # js) \<and> fst q = ?m - 1 then WHITE
           else if nat (snd q) \<in> set (j # js) \<and> fst q = 0 then BLACK
           else piece_at b q)"
  proof (intro allI impI)
    fix q assume q: "in_bounds b q"
    then have nn: "0 \<le> snd q" by (simp add: in_bounds_def)
    have eqj: "(nat (snd q) = j) = (snd q = int j)" using nn by auto
    have "piece_at b' q =
          (if nat (snd q) \<in> set js \<and> fst q = ?m - 1 then WHITE
           else if nat (snd q) \<in> set js \<and> fst q = 0 then BLACK
           else piece_at ?b2 q)"
    proof -
      have "in_bounds ?b2 q" using q ib2 [of q] by simp
      with b'(5) show ?thesis unfolding l2 by blast
    qed
    then show "piece_at b' q =
          (if nat (snd q) \<in> set (j # js) \<and> fst q = ?m - 1 then WHITE
           else if nat (snd q) \<in> set (j # js) \<and> fst q = 0 then BLACK
           else piece_at b q)"
      using at2 [OF q] eqj by (cases q) auto
  qed
  from run b'(2) b'(3) b'(4) l2 h2 cells show ?case by auto
qed


text \<open>
  Claim C9, as amended. \<open>initial_state\<close> checks nothing about its arguments. For
  \<open>m \<ge> 1\<close> and \<open>n \<ge> 1\<close> it returns a well-formed m by n board whose row \<open>m - 1\<close> is all
  white, whose row \<open>0\<close> (when it is another row, that is for \<open>m \<ge> 2\<close>) is all black and
  whose other cells are empty. For \<open>n \<le> 0\<close> it returns \<open>max m 0\<close> empty rows. It raises
  \<open>IndexError\<close> when \<open>m \<le> 0\<close> and \<open>n \<ge> 1\<close>, and only then.
\<close>

theorem initial_state_cases:
  "(1 \<le> m \<and> 1 \<le> n \<longrightarrow>
      (\<exists>b. initial_state m n = Inr b \<and> wf_board b \<and> int (length b) = m \<and>
         int (length (hd b)) = n \<and>
         (\<forall>q. in_bounds b q \<longrightarrow> piece_at b q =
            (if fst q = m - 1 then WHITE else if fst q = 0 then BLACK else EMPTY)))) \<and>
   (n \<le> 0 \<longrightarrow> initial_state m n = Inr (replicate (nat m) [])) \<and>
   (m \<le> 0 \<and> 1 \<le> n \<longrightarrow> initial_state m n = Inl IndexError)"
proof (intro conjI impI)
  assume mn: "1 \<le> m \<and> 1 \<le> n"
  let ?b0 = "replicate (nat m) (replicate (nat n) EMPTY)"
  have ne: "?b0 \<noteq> []" using mn by simp
  have hd0: "hd ?b0 = replicate (nat n) EMPTY" using mn by (simp add: hd_replicate)
  have wf0: "wf_board ?b0"
    using ne by (simp only: wf_board_def hd0 list_all_iff) simp
  have len0: "int (length ?b0) = m" using mn by simp
  have js: "\<forall>j \<in> set [0..<nat n]. j < length (hd ?b0)" by (simp add: hd0)
  have at0: "\<And>q. in_bounds ?b0 q \<Longrightarrow> piece_at ?b0 q = EMPTY"
  proof -
    fix q assume "in_bounds ?b0 q"
    then have "nat (fst q) < nat m" "nat (snd q) < nat n"
      using mn by (simp_all add: in_bounds_def hd0)
    then show "piece_at ?b0 q = EMPTY" by (simp add: piece_at_def)
  qed
  from init_loop_cells [OF wf0 js] obtain b' where
    b': "init_loop [0..<nat n] (int (length ?b0)) ?b0 = Inr b'" "wf_board b'"
      "length b' = length ?b0" "length (hd b') = length (hd ?b0)"
      "\<forall>q. in_bounds ?b0 q \<longrightarrow> piece_at b' q =
          (if nat (snd q) \<in> set [0..<nat n] \<and> fst q = int (length ?b0) - 1 then WHITE
           else if nat (snd q) \<in> set [0..<nat n] \<and> fst q = 0 then BLACK
           else piece_at ?b0 q)"
    by blast
  have run: "initial_state m n = Inr b'"
    using b'(1) by (simp only: initial_state_def len0)
  have l: "int (length b') = m" using b'(3) len0 by simp
  have h: "int (length (hd b')) = n" using b'(4) hd0 mn by simp
  have cells: "\<forall>q. in_bounds b' q \<longrightarrow> piece_at b' q =
            (if fst q = m - 1 then WHITE else if fst q = 0 then BLACK else EMPTY)"
  proof (intro allI impI)
    fix q assume q: "in_bounds b' q"
    then have q0: "in_bounds ?b0 q"
      using b'(3) b'(4) by (simp add: in_bounds_def)
    then have c: "nat (snd q) \<in> set [0..<nat n]"
      using mn by (simp add: in_bounds_def hd0)
    have "piece_at b' q =
          (if nat (snd q) \<in> set [0..<nat n] \<and> fst q = int (length ?b0) - 1 then WHITE
           else if nat (snd q) \<in> set [0..<nat n] \<and> fst q = 0 then BLACK
           else piece_at ?b0 q)"
      using b'(5) q0 by blast
    then show "piece_at b' q =
            (if fst q = m - 1 then WHITE else if fst q = 0 then BLACK else EMPTY)"
      using c at0 [OF q0] by (simp only: len0 simp_thms if_True)
  qed
  from run b'(2) l h cells
  show "\<exists>b. initial_state m n = Inr b \<and> wf_board b \<and> int (length b) = m \<and>
         int (length (hd b)) = n \<and>
         (\<forall>q. in_bounds b q \<longrightarrow> piece_at b q =
            (if fst q = m - 1 then WHITE else if fst q = 0 then BLACK else EMPTY))"
    by blast
next
  assume "n \<le> 0"
  then show "initial_state m n = Inr (replicate (nat m) [])"
    by (simp add: initial_state_def)
next
  assume mn: "m \<le> 0 \<and> 1 \<le> n"
  then have "[0..<nat n] = 0 # [1..<nat n]" by (simp add: upt_conv_Cons)
  moreover have "set_cell [] (0, 0) BLACK = Inl IndexError"
    by (simp add: set_cell_def getitem_def norm_index_def)
  ultimately show "initial_state m n = Inl IndexError"
    using mn by (simp add: initial_state_def)
qed

theorem initial_state_cases_witness:
  "(\<exists>b. initial_state 3 3 = Inr b \<and> wf_board b \<and> int (length b) = 3 \<and>
      int (length (hd b)) = 3 \<and> piece_at b (1, 1) = EMPTY \<and> piece_at b (0, 2) = BLACK \<and>
      piece_at b (2, 0) = WHITE) \<and>
   initial_state 3 0 = Inr [[], [], []] \<and>
   initial_state 0 3 = Inl IndexError"
proof -
  from initial_state_cases [of 3 3] obtain b where
    b: "initial_state 3 3 = Inr b" "wf_board b" "int (length b) = 3" "int (length (hd b)) = 3"
      "\<forall>q. in_bounds b q \<longrightarrow> piece_at b q =
            (if fst q = 3 - 1 then WHITE else if fst q = 0 then BLACK else EMPTY)"
    by auto
  have "in_bounds b (1, 1)" "in_bounds b (0, 2)" "in_bounds b (2, 0)"
    using b(3,4) by (simp_all add: in_bounds_def)
  with b(5) have "piece_at b (1, 1) = EMPTY" "piece_at b (0, 2) = BLACK"
    "piece_at b (2, 0) = WHITE"
    by fastforce+
  moreover have "initial_state 3 0 = Inr [[], [], []]"
    using initial_state_cases [of 3 0] by (simp add: numeral_3_eq_3)
  moreover have "initial_state 0 3 = Inl IndexError"
    using initial_state_cases [of 0 3] by simp
  ultimately show ?thesis using b(1-4) by blast
qed

text \<open>
  With \<open>m = 1\<close> or \<open>n = 0\<close> nothing fails: a single row ends up white, and zero columns
  give empty rows.
\<close>

theorem initial_state_no_check_counterexample:
  "initial_state 1 1 = Inr [[WHITE]] \<and> initial_state 2 0 = Inr [[], []] \<and>
   initial_state 0 0 = Inr []"
  by (simp add: initial_state_def set_cell_def getitem_def setitem_def norm_index_def
      numeral_2_eq_2)

section \<open>actions, terminal, utility and the move selection\<close>

lemma positions_product:
  "positions b =
     map (\<lambda>(i, j). (int i, int j)) (List.product [0..<length b] [0..<length (hd b)])"
  by (simp add: positions_def product_concat_map map_concat comp_def)

lemma distinct_positions: "distinct (positions b)"
  unfolding positions_product
  by (rule distinct_map [THEN iffD2]) (auto simp: distinct_product inj_on_def)

lemma set_positions: "set (positions b) = {p. in_bounds b p}"
proof (rule set_eqI)
  fix p :: pos
  obtain i j where p: "p = (i, j)" by (cases p)
  have "p \<in> set (positions b) \<longleftrightarrow>
          (\<exists>i' < length b. \<exists>j' < length (hd b). p = (int i', int j'))"
    by (fastforce simp: positions_def)
  also have "\<dots> \<longleftrightarrow> in_bounds b p"
  proof
    assume "\<exists>i' < length b. \<exists>j' < length (hd b). p = (int i', int j')"
    then show "in_bounds b p" by (auto simp: in_bounds_def)
  next
    assume "in_bounds b p"
    then have "nat i < length b" "nat j < length (hd b)" "p = (int (nat i), int (nat j))"
      using p by (simp_all add: in_bounds_def nat_less_iff)
    then show "\<exists>i' < length b. \<exists>j' < length (hd b). p = (int i', int j')" by blast
  qed
  finally show "p \<in> set (positions b) \<longleftrightarrow> p \<in> {p. in_bounds b p}" by simp
qed

lemma legal_moves_keys:
  "map fst (concat (map (entry b side) ps)) =
     filter (\<lambda>src. piece_at b src = side \<and> destinations b side src \<noteq> []) ps"
  by (induction ps) (simp_all add: entry_def slot_def)

lemma legal_moves_set:
  "set (concat (map (entry b side) ps)) =
     {(src, destinations b side src) | src.
        src \<in> set ps \<and> piece_at b src = side \<and> destinations b side src \<noteq> []}"
  by (induction ps) (auto simp: entry_def slot_def)

lemma flat_legal_moves:
  "flat_moves (concat (map (entry b side) ps)) =
     concat (map (\<lambda>src. if piece_at b src = side then map (Pair src) (destinations b side src)
                          else []) ps)"
  by (induction ps) (simp_all add: flat_moves_def entry_def slot_def)

lemma flat_moves_legal: "flat_moves (legal_moves b side) = enumerated_moves b side"
  by (simp add: legal_moves_def enumerated_moves_def flat_legal_moves)

lemma legal_moves_Nil: "legal_moves b side = [] \<longleftrightarrow> enumerated_moves b side = []"
proof -
  have "\<And>ps. concat (map (entry b side) ps) = [] \<longleftrightarrow>
          concat (map (\<lambda>src. if piece_at b src = side
             then map (Pair src) (destinations b side src) else []) ps) = []"
    by (auto simp: entry_def slot_def)
  then show ?thesis by (simp only: legal_moves_def enumerated_moves_def)
qed

lemma destinations_set:
  "set (destinations b side (i, j)) =
     {p. p = (i + forward_dir side, j) \<and> in_bounds b p \<and> piece_at b p = EMPTY} \<union>
     {p. (p = (i + forward_dir side, j - 1) \<or> p = (i + forward_dir side, j + 1)) \<and>
         in_bounds b p \<and> piece_at b p = opposing side}"
  by (auto simp: destinations_alt split: if_splits)

text \<open>
  Claim C5. On a well-formed board and for either side, \<open>actions\<close> returns a mapping
  with one entry per key. Its keys are exactly the in-bounds positions \<open>(i, j)\<close> that hold a
  piece of the side and have a destination, so no key has an empty list. With \<open>d\<close> the
  forward direction of the side (white \<open>-1\<close>, black \<open>+1\<close>), the list of \<open>(i, j)\<close> holds only
  \<open>(i + d, j)\<close>, \<open>(i + d, j - 1)\<close> and \<open>(i + d, j + 1)\<close>; the straight cell is listed iff it
  is in bounds and empty, each diagonal cell iff it is in bounds and holds a piece of the
  other side.
\<close>

theorem actions_mapping:
  assumes wf: "wf_board b" and side: "side = WHITE \<or> side = BLACK"
  shows "\<exists>pm. actions b side = Inr pm \<and> distinct (map fst pm) \<and>
     (\<forall>i j. (i, j) \<in> fst ` set pm \<longleftrightarrow>
        in_bounds b (i, j) \<and> piece_at b (i, j) = side \<and>
        (in_bounds b (i + forward_dir side, j) \<and>
           piece_at b (i + forward_dir side, j) = EMPTY \<or>
         in_bounds b (i + forward_dir side, j - 1) \<and>
           piece_at b (i + forward_dir side, j - 1) = opposing side \<or>
         in_bounds b (i + forward_dir side, j + 1) \<and>
           piece_at b (i + forward_dir side, j + 1) = opposing side)) \<and>
     (\<forall>i j ds. ((i, j), ds) \<in> set pm \<longrightarrow>
        ds \<noteq> [] \<and> ds = destinations b side (i, j) \<and>
        set ds \<subseteq> {(i + forward_dir side, j), (i + forward_dir side, j - 1),
                   (i + forward_dir side, j + 1)} \<and>
        ((i + forward_dir side, j) \<in> set ds \<longleftrightarrow>
           in_bounds b (i + forward_dir side, j) \<and>
           piece_at b (i + forward_dir side, j) = EMPTY) \<and>
        ((i + forward_dir side, j - 1) \<in> set ds \<longleftrightarrow>
           in_bounds b (i + forward_dir side, j - 1) \<and>
           piece_at b (i + forward_dir side, j - 1) = opposing side) \<and>
        ((i + forward_dir side, j + 1) \<in> set ds \<longleftrightarrow>
           in_bounds b (i + forward_dir side, j + 1) \<and>
           piece_at b (i + forward_dir side, j + 1) = opposing side))"
proof -
  let ?pm = "legal_moves b side"
  have run: "actions b side = Inr ?pm" using wf side by (rule actions_refines)
  have keys: "map fst ?pm =
      filter (\<lambda>src. piece_at b src = side \<and> destinations b side src \<noteq> []) (positions b)"
    by (simp only: legal_moves_def legal_moves_keys)
  have d: "distinct (map fst ?pm)"
    unfolding keys using distinct_positions by (rule distinct_filter)
  have ne: "\<And>i j. destinations b side (i, j) \<noteq> [] \<longleftrightarrow>
        (in_bounds b (i + forward_dir side, j) \<and>
           piece_at b (i + forward_dir side, j) = EMPTY \<or>
         in_bounds b (i + forward_dir side, j - 1) \<and>
           piece_at b (i + forward_dir side, j - 1) = opposing side \<or>
         in_bounds b (i + forward_dir side, j + 1) \<and>
           piece_at b (i + forward_dir side, j + 1) = opposing side)"
    by (simp add: destinations_alt)
  have k: "\<forall>i j. (i, j) \<in> fst ` set ?pm \<longleftrightarrow>
        in_bounds b (i, j) \<and> piece_at b (i, j) = side \<and>
        (in_bounds b (i + forward_dir side, j) \<and>
           piece_at b (i + forward_dir side, j) = EMPTY \<or>
         in_bounds b (i + forward_dir side, j - 1) \<and>
           piece_at b (i + forward_dir side, j - 1) = opposing side \<or>
         in_bounds b (i + forward_dir side, j + 1) \<and>
           piece_at b (i + forward_dir side, j + 1) = opposing side)"
  proof (intro allI)
    fix i j
    have "(i, j) \<in> fst ` set ?pm \<longleftrightarrow> (i, j) \<in> set (map fst ?pm)" by simp
    also have "\<dots> \<longleftrightarrow> in_bounds b (i, j) \<and> piece_at b (i, j) = side \<and>
        destinations b side (i, j) \<noteq> []"
      unfolding keys by (simp add: set_positions)
    finally show "(i, j) \<in> fst ` set ?pm \<longleftrightarrow>
        in_bounds b (i, j) \<and> piece_at b (i, j) = side \<and>
        (in_bounds b (i + forward_dir side, j) \<and>
           piece_at b (i + forward_dir side, j) = EMPTY \<or>
         in_bounds b (i + forward_dir side, j - 1) \<and>
           piece_at b (i + forward_dir side, j - 1) = opposing side \<or>
         in_bounds b (i + forward_dir side, j + 1) \<and>
           piece_at b (i + forward_dir side, j + 1) = opposing side)"
      by (simp only: ne)
  qed
  have v: "\<forall>i j ds. ((i, j), ds) \<in> set ?pm \<longrightarrow>
        ds \<noteq> [] \<and> ds = destinations b side (i, j) \<and>
        set ds \<subseteq> {(i + forward_dir side, j), (i + forward_dir side, j - 1),
                   (i + forward_dir side, j + 1)} \<and>
        ((i + forward_dir side, j) \<in> set ds \<longleftrightarrow>
           in_bounds b (i + forward_dir side, j) \<and>
           piece_at b (i + forward_dir side, j) = EMPTY) \<and>
        ((i + forward_dir side, j - 1) \<in> set ds \<longleftrightarrow>
           in_bounds b (i + forward_dir side, j - 1) \<and>
           piece_at b (i + forward_dir side, j - 1) = opposing side) \<and>
        ((i + forward_dir side, j + 1) \<in> set ds \<longleftrightarrow>
           in_bounds b (i + forward_dir side, j + 1) \<and>
           piece_at b (i + forward_dir side, j + 1) = opposing side)"
  proof (intro allI impI)
    fix i j ds
    assume "((i, j), ds) \<in> set ?pm"
    then have ds: "ds = destinations b side (i, j)" "ds \<noteq> []"
      unfolding legal_moves_def legal_moves_set by auto
    show "ds \<noteq> [] \<and> ds = destinations b side (i, j) \<and>
        set ds \<subseteq> {(i + forward_dir side, j), (i + forward_dir side, j - 1),
                   (i + forward_dir side, j + 1)} \<and>
        ((i + forward_dir side, j) \<in> set ds \<longleftrightarrow>
           in_bounds b (i + forward_dir side, j) \<and>
           piece_at b (i + forward_dir side, j) = EMPTY) \<and>
        ((i + forward_dir side, j - 1) \<in> set ds \<longleftrightarrow>
           in_bounds b (i + forward_dir side, j - 1) \<and>
           piece_at b (i + forward_dir side, j - 1) = opposing side) \<and>
        ((i + forward_dir side, j + 1) \<in> set ds \<longleftrightarrow>
           in_bounds b (i + forward_dir side, j + 1) \<and>
           piece_at b (i + forward_dir side, j + 1) = opposing side)"
      using ds(2) unfolding ds(1) destinations_set by auto
  qed
  from run d k v show ?thesis by blast
qed


theorem actions_mapping_witness:
  "wf_board board3 \<and>
   actions board3 BLACK = Inr [((0, 0), [(1, 0)]), ((0, 1), [(1, 1)]), ((0, 2), [(1, 2)])] \<and>
   (\<exists>pm. actions board3 BLACK = Inr pm \<and> distinct (map fst pm) \<and>
      ((0, 1), [(1, 1)]) \<in> set pm \<and> (2, 0) \<notin> fst ` set pm)"
proof -
  have v: "actions board3 BLACK =
      Inr [((0, 0), [(1, 0)]), ((0, 1), [(1, 1)]), ((0, 2), [(1, 2)])]"
    by code_simp
  from actions_mapping [OF wf_board3, of BLACK] obtain pm where
    pm: "actions board3 BLACK = Inr pm" "distinct (map fst pm)"
    by blast
  from pm(1) v have "((0, 1), [(1, 1)]) \<in> set pm" "(2, 0) \<notin> fst ` set pm"
    by auto
  with pm v wf_board3 show ?thesis by blast
qed

lemma getitem_top: "wf_board b \<Longrightarrow> getitem b 0 = Inr (hd b)"
  by (simp add: wf_board_def getitem_nonneg hd_conv_nth)

lemma getitem_bottom: "wf_board b \<Longrightarrow> getitem b (- 1) = Inr (last b)"
  by (auto simp: wf_board_def getitem_def norm_index_def last_conv_nth nat_diff_distrib')

lemma terminal_spec:
  assumes wf: "wf_board b"
  shows "terminal b turn =
     Inr (WHITE \<in> set (hd b) \<or> BLACK \<in> set (last b) \<or>
          turn = WHITE \<and> enumerated_moves b WHITE = [] \<or>
          turn = BLACK \<and> enumerated_moves b BLACK = [])"
  by (cases turn)
    (simp_all add: terminal_def getitem_top [OF wf] getitem_bottom [OF wf]
      actions_refines [OF wf] legal_moves_Nil list_ex_iff)

lemma utility_spec:
  assumes wf: "wf_board b"
  shows "utility b turn =
     (if WHITE \<in> set (hd b) then Inr WHITE
      else if BLACK \<in> set (last b) then Inr BLACK
      else if turn = BLACK \<and> enumerated_moves b BLACK = [] then Inr WHITE
      else if turn = WHITE \<and> enumerated_moves b WHITE = [] then Inr BLACK
      else Inl AssertionError)"
  by (cases turn)
    (simp_all add: utility_def getitem_top [OF wf] getitem_bottom [OF wf]
      actions_refines [OF wf] legal_moves_Nil list_ex_iff)

text \<open>
  Claim C6. On a well-formed board and for every turn value, \<open>terminal\<close> returns a
  boolean, which is true iff \<open>utility\<close> returns a winner instead of failing its final
  assertion. \<open>utility\<close> returns white when a white piece is on row 0, else black when a
  black piece is on the last row, else white when black is to move and has no legal move,
  else black when white is to move and has no legal move.
\<close>

theorem terminal_iff_utility:
  assumes wf: "wf_board b"
  shows "\<exists>t. terminal b turn = Inr t \<and> (t \<longleftrightarrow> (\<exists>w. utility b turn = Inr w)) \<and>
     utility b turn =
       (if WHITE \<in> set (hd b) then Inr WHITE
        else if BLACK \<in> set (last b) then Inr BLACK
        else if turn = BLACK \<and> enumerated_moves b BLACK = [] then Inr WHITE
        else if turn = WHITE \<and> enumerated_moves b WHITE = [] then Inr BLACK
        else Inl AssertionError)"
  unfolding terminal_spec [OF wf] utility_spec [OF wf] by auto


theorem terminal_iff_utility_witness:
  "wf_board board_won \<and> terminal board_won BLACK = Inr True \<and>
   utility board_won BLACK = Inr WHITE \<and>
   wf_board board3 \<and> terminal board3 WHITE = Inr False \<and>
   utility board3 WHITE = Inl AssertionError"
proof -
  have wf: "wf_board board_won" by (simp add: wf_board_def board_won_def)
  have e: "enumerated_moves board3 WHITE \<noteq> []" by code_simp
  from terminal_iff_utility [OF wf, of BLACK]
  have 1: "terminal board_won BLACK = Inr True \<and> utility board_won BLACK = Inr WHITE"
    by (auto simp: board_won_def)
  from terminal_iff_utility [OF wf_board3, of WHITE] e
  have 2: "terminal board3 WHITE = Inr False \<and> utility board3 WHITE = Inl AssertionError"
    by (auto simp: board3_def)
  from wf wf_board3 1 2 show ?thesis by blast
qed

lemma find_append_cases:
  "find P (xs @ ys) = (case find P xs of Some x \<Rightarrow> Some x | None \<Rightarrow> find P ys)"
  by (induction xs) simp_all

lemma scan_moves_find:
  "scan_moves k b pawn ms = find (\<lambda>mv. \<not> is_mistake k b mv) (map (Pair pawn) ms)"
  by (induction ms) simp_all

lemma scan_pawns_find:
  "scan_pawns k b pm = find (\<lambda>mv. \<not> is_mistake k b mv) (flat_moves pm)"
proof (induction pm)
  case Nil
  then show ?case by (simp add: flat_moves_def)
next
  case (Cons e pm)
  obtain pawn ms where e: "e = (pawn, ms)" by (cases e)
  have "flat_moves (e # pm) = map (Pair pawn) ms @ flat_moves pm"
    by (simp add: flat_moves_def e)
  then show ?case
    using Cons.IH by (simp add: e scan_moves_find find_append_cases split: option.split)
qed

lemma legal_moves_head:
  assumes "legal_moves b side = (src, ms) # rest"
  shows "ms \<noteq> []"
proof -
  have "(src, ms) \<in> set (legal_moves b side)" using assms by simp
  then show ?thesis unfolding legal_moves_def legal_moves_set by auto
qed

lemma cli_select_spec:
  assumes wf: "wf_board b"
  shows "cli_select k b =
     (case find (\<lambda>mv. \<not> is_mistake k b mv) (enumerated_moves b BLACK) of
        Some mv \<Rightarrow> Inr mv
      | None \<Rightarrow> if enumerated_moves b BLACK = [] then Inl IndexError else Inl AssertionError)"
proof (cases "find (\<lambda>mv. \<not> is_mistake k b mv) (enumerated_moves b BLACK)")
  case (Some mv)
  then show ?thesis
    by (simp add: cli_select_def actions_refines [OF wf] scan_pawns_find flat_moves_legal)
next
  case None
  then have sp: "scan_pawns k b (legal_moves b BLACK) = None"
    by (simp add: scan_pawns_find flat_moves_legal)
  show ?thesis
  proof (cases "legal_moves b BLACK")
    case Nil
    then have "enumerated_moves b BLACK = []" by (simp add: legal_moves_Nil)
    then show ?thesis
      using None Nil sp
      by (simp add: cli_select_def actions_refines [OF wf])
  next
    case (Cons e rest)
    obtain src ms where e: "e = (src, ms)" by (cases e)
    have ms: "ms \<noteq> []" using Cons e by (intro legal_moves_head [of b BLACK src ms rest]) simp
    then obtain d ds where d: "ms = d # ds" by (cases ms) simp_all
    have "enumerated_moves b BLACK \<noteq> []" using Cons by (simp flip: legal_moves_Nil)
    then show ?thesis
      using None Cons e d sp
      by (simp add: cli_select_def actions_refines [OF wf])
  qed
qed

lemma gui_black_turn_spec:
  assumes wf: "wf_board b"
  shows "gui_black_turn k b h =
     (case find (\<lambda>mv. \<not> is_mistake k b mv) (enumerated_moves b BLACK) of
        Some mv \<Rightarrow> ebind (result b (fst mv) (snd mv)) (\<lambda>b'. Inr (b', Some (Node b h mv)))
      | None \<Rightarrow> Inr (b, h))"
  by (simp add: gui_black_turn_def actions_refines [OF wf] scan_pawns_find flat_moves_legal
      split: option.split)

lemma destinations_in_bounds: "d \<in> set (destinations b side src) \<Longrightarrow> in_bounds b d"
  by (cases src) (auto simp: destinations_set)

lemma enumerated_moves_set:
  "set (enumerated_moves b side) =
     {(src, d) | src d. in_bounds b src \<and> piece_at b src = side \<and>
        d \<in> set (destinations b side src)}"
  by (auto simp: enumerated_moves_def set_positions split: if_splits)

lemma enumerated_moves_in_bounds:
  assumes "mv \<in> set (enumerated_moves b side)"
  shows "in_bounds b (fst mv) \<and> in_bounds b (snd mv) \<and> piece_at b (fst mv) = side \<and>
         snd mv \<in> set (destinations b side (fst mv))"
  using assms destinations_in_bounds unfolding enumerated_moves_set by auto

text \<open>
  Claim C3. On a well-formed board where some legal move of black is not a known mistake,
  the selection of cli.py returns the first pair of the enumeration (sources in row-major
  order, destinations straight, left, right) that is not a known mistake; the automated
  turn of cli.py and of gui.py makes exactly that move and pushes it on the history.
\<close>

theorem black_selects_first_untried:
  assumes wf: "wf_board b"
    and untried: "list_ex (\<lambda>mv. \<not> is_mistake k b mv) (enumerated_moves b BLACK)"
  shows "\<exists>mv b'. find (\<lambda>mv. \<not> is_mistake k b mv) (enumerated_moves b BLACK) = Some mv \<and>
           cli_select k b = Inr mv \<and>
           result b (fst mv) (snd mv) = Inr b' \<and>
           cli_black_turn k b h = Inr (b', Some (Node b h mv)) \<and>
           gui_black_turn k b h = Inr (b', Some (Node b h mv))"
proof -
  from untried obtain mv where
    mv: "find (\<lambda>mv. \<not> is_mistake k b mv) (enumerated_moves b BLACK) = Some mv"
    by (cases "find (\<lambda>mv. \<not> is_mistake k b mv) (enumerated_moves b BLACK)")
      (auto simp: find_None_iff list_ex_iff)
  then have "mv \<in> set (enumerated_moves b BLACK)"
    by (auto simp: find_Some_iff)
  then have "in_bounds b (fst mv)" "in_bounds b (snd mv)"
    using enumerated_moves_in_bounds by blast+
  then obtain b' where b': "result b (fst mv) (snd mv) = Inr b'"
    using result_in_bounds [OF wf] by blast
  have c: "cli_select k b = Inr mv" by (simp add: cli_select_spec [OF wf] mv)
  have t: "cli_black_turn k b h = Inr (b', Some (Node b h mv))"
    using b' by (simp add: cli_black_turn_def c split_beta)
  have g: "gui_black_turn k b h = Inr (b', Some (Node b h mv))"
    using b' by (simp add: gui_black_turn_spec [OF wf] mv)
  from mv c b' t g show ?thesis by blast
qed

theorem black_selects_first_untried_witness:
  "wf_board board3 \<and>
   list_ex (\<lambda>mv. \<not> is_mistake knowledge1 board3 mv) (enumerated_moves board3 BLACK) \<and>
   cli_select knowledge1 board3 = Inr ((0, 1), (1, 1)) \<and>
   gui_black_turn knowledge1 board3 None =
     Inr ([[BLACK, EMPTY, BLACK], [EMPTY, BLACK, EMPTY], [WHITE, WHITE, WHITE]],
          Some (Node board3 None ((0, 1), (1, 1))))"
proof -
  have u: "list_ex (\<lambda>mv. \<not> is_mistake knowledge1 board3 mv) (enumerated_moves board3 BLACK)"
    by code_simp
  have f: "find (\<lambda>mv. \<not> is_mistake knowledge1 board3 mv) (enumerated_moves board3 BLACK) =
             Some ((0, 1), (1, 1))"
    by code_simp
  have r: "result board3 (0, 1) (1, 1) =
             Inr [[BLACK, EMPTY, BLACK], [EMPTY, BLACK, EMPTY], [WHITE, WHITE, WHITE]]"
    by code_simp
  from black_selects_first_untried [OF wf_board3 u, of None] f r wf_board3 u
  show ?thesis by auto
qed

section \<open>Exhausted knowledge and the Catch-22 test\<close>

lemma find_all_mistakes:
  "list_all (\<lambda>mv. is_mistake k b mv) ms \<Longrightarrow> find (\<lambda>mv. \<not> is_mistake k b mv) ms = None"
  by (simp add: find_None_iff list_all_iff)

lemma gui_skips_turn:
  assumes "wf_board b" "list_all (\<lambda>mv. is_mistake k b mv) (enumerated_moves b BLACK)"
  shows "gui_black_turn k b h = Inr (b, h)"
  by (simp add: gui_black_turn_spec [OF assms(1)] find_all_mistakes [OF assms(2)])

text \<open>
  What the two shells do when black has a legal move and every legal move of black is a known
  mistake: cli.py stops on its bare \<open>assert False\<close>, gui.py makes no move.
\<close>

lemma cli_all_moves_mistakes:
  assumes wf: "wf_board b"
    and some: "enumerated_moves b BLACK \<noteq> []"
    and all: "list_all (\<lambda>mv. is_mistake k b mv) (enumerated_moves b BLACK)"
  shows "cli_select k b = Inl AssertionError \<and> cli_black_turn k b h = Inl AssertionError"
proof -
  have "cli_select k b = Inl AssertionError"
    using some by (simp add: cli_select_spec [OF wf] find_all_mistakes [OF all])
  then show ?thesis by (simp add: cli_black_turn_def)
qed

lemma wf_board_col: "wf_board board_col"
  by (simp add: wf_board_def board_col_def)

text \<open>
  Claim C4 asks for a defined "no safe move" outcome when every legal move of black is a
  known mistake. The code has none, and the state is reached by legal play on the 3 by 3
  board. White wins two games that pass through the same board, where black has two legal
  moves; the first loss records one of them, the second records the other and, the Catch-22
  test holding there, the move black made before. In a third game white's first two moves in
  the other order lead to the same board, black to move, the game not over, both moves known
  mistakes. There cli.py fails the assertion it comments with "Shouldn't happen in a valid
  game"; gui.py leaves board and history as they are and passes the turn, so that white moves
  twice in a row, captures and wins.
\<close>

theorem exhausted_knowledge_in_play:
  "initial_state 3 3 = Inr board3 \<and>
   cli_play \<lparr>mistakes = []\<rparr> board3 None game1 = Inr (Over knowledge_after1) \<and>
   cli_play knowledge_after1 board3 None game2 = Inr (Over knowledge_after2) \<and>
   cli_play knowledge_after2 board3 None game3 = Inl AssertionError \<and>
   gui_play \<lparr>mistakes = []\<rparr> board3 None game1 = Inr (Over knowledge_after1) \<and>
   gui_play knowledge_after1 board3 None game2 = Inr (Over knowledge_after2) \<and>
   gui_play knowledge_after2 board3 None game3 =
     Inr (Waiting knowledge_after2 board_star history3) \<and>
   actions board_star BLACK = Inr [((0, 1), [(1, 2)]), ((0, 2), [(1, 1)])] \<and>
   is_mistake knowledge_after2 board_star ((0, 1), (1, 2)) \<and>
   is_mistake knowledge_after2 board_star ((0, 2), (1, 1)) \<and>
   terminal board_star BLACK = Inr False \<and>
   cli_select knowledge_after2 board_star = Inl AssertionError \<and>
   cli_black_turn knowledge_after2 board_star history3 = Inl AssertionError \<and>
   gui_black_turn knowledge_after2 board_star history3 = Inr (board_star, history3) \<and>
   gui_play knowledge_after2 board3 None (game3 @ [((1, 1), (0, 2))]) =
     Inr (Over \<lparr>mistakes = [Mistake board_star ((0, 1), (1, 2)),
       Mistake board_star ((0, 2), (1, 1)), Mistake board_mid ((0, 0), (1, 0)),
       Mistake board_right ((0, 0), (1, 0))]\<rparr>)"
proof -
  have 1: "initial_state 3 3 = Inr board3" by code_simp
  have 2: "cli_play \<lparr>mistakes = []\<rparr> board3 None game1 = Inr (Over knowledge_after1)"
    by code_simp
  have 3: "cli_play knowledge_after1 board3 None game2 = Inr (Over knowledge_after2)"
    by code_simp
  have 4: "cli_play knowledge_after2 board3 None game3 = Inl AssertionError"
    by code_simp
  have 5: "gui_play \<lparr>mistakes = []\<rparr> board3 None game1 = Inr (Over knowledge_after1)"
    by code_simp
  have 6: "gui_play knowledge_after1 board3 None game2 = Inr (Over knowledge_after2)"
    by code_simp
  have 7: "gui_play knowledge_after2 board3 None game3 =
      Inr (Waiting knowledge_after2 board_star history3)"
    by code_simp
  have 8: "actions board_star BLACK = Inr [((0, 1), [(1, 2)]), ((0, 2), [(1, 1)])]"
    by code_simp
  have 9: "is_mistake knowledge_after2 board_star ((0, 1), (1, 2))" by code_simp
  have 10: "is_mistake knowledge_after2 board_star ((0, 2), (1, 1))" by code_simp
  have 11: "terminal board_star BLACK = Inr False" by code_simp
  have 12: "cli_select knowledge_after2 board_star = Inl AssertionError" by code_simp
  have 13: "cli_black_turn knowledge_after2 board_star history3 = Inl AssertionError"
    by code_simp
  have 14: "gui_black_turn knowledge_after2 board_star history3 = Inr (board_star, history3)"
    by code_simp
  have 15: "gui_play knowledge_after2 board3 None (game3 @ [((1, 1), (0, 2))]) =
      Inr (Over \<lparr>mistakes = [Mistake board_star ((0, 1), (1, 2)),
        Mistake board_star ((0, 2), (1, 1)), Mistake board_mid ((0, 0), (1, 0)),
        Mistake board_right ((0, 0), (1, 0))]\<rparr>)"
    by code_simp
  show ?thesis
    by (intro conjI) (fact 1 2 3 4 5 6 7 8 9 10 11 12 13 14 15)+
qed

lemma total_moves_flat:
  "sum_list (map ((\<lambda>ms. int (length ms)) \<circ> snd) pm) = int (length (flat_moves pm))"
  by (induction pm) (auto simp: flat_moves_def)

lemma catch22_spec:
  assumes wf: "wf_board b"
  shows "catch22 k b =
     Inr (int (length (enumerated_moves b BLACK)) - 1 =
          int (length (filter (\<lambda>mk. configuration mk = b) (mistakes k))))"
  by (simp add: catch22_def actions_refines [OF wf] total_moves_flat flat_moves_legal)

lemma distinct_destinations: "distinct (destinations b side src)"
  by (cases src) (auto simp: destinations_alt)

lemma distinct_enumerated_aux:
  "distinct ps \<Longrightarrow>
   distinct (concat (map (\<lambda>src. if piece_at b src = side
      then map (Pair src) (destinations b side src) else []) ps))"
proof (induction ps)
  case Nil
  then show ?case by simp
next
  case (Cons p ps)
  have "distinct (map (Pair p) (destinations b side p))"
    using distinct_destinations by (simp add: distinct_map inj_on_def)
  moreover have "\<And>d. (p, d) \<notin> set (concat (map (\<lambda>src. if piece_at b src = side
      then map (Pair src) (destinations b side src) else []) ps))"
    using Cons.prems by (auto split: if_splits)
  ultimately show ?case using Cons by auto
qed

lemma distinct_enumerated_moves: "distinct (enumerated_moves b side)"
  unfolding enumerated_moves_def using distinct_positions by (rule distinct_enumerated_aux)

lemma record_count_eq_move_count:
  assumes d: "distinct (filter (\<lambda>mk. configuration mk = b) (mistakes k))"
    and legal: "list_all (\<lambda>mk. configuration mk = b \<longrightarrow> fault_action mk \<in> set ms) (mistakes k)"
    and dm: "distinct ms"
  shows "length (filter (\<lambda>mk. configuration mk = b) (mistakes k)) =
         length (filter (\<lambda>mv. is_mistake k b mv) ms)"
proof -
  let ?R = "filter (\<lambda>mk. configuration mk = b) (mistakes k)"
  let ?L = "filter (\<lambda>mv. is_mistake k b mv) ms"
  have "set ?R = Mistake b ` set ?L"
  proof (intro set_eqI iffI)
    fix r assume r: "r \<in> set ?R"
    then have "fault_action r \<in> set ms" "configuration r = b" "r \<in> set (mistakes k)"
      using legal by (auto simp: list_all_iff)
    moreover from this have "r = Mistake b (fault_action r)" by (cases r) simp
    ultimately show "r \<in> Mistake b ` set ?L"
      by (auto simp: is_mistake_def intro!: image_eqI [where x = "fault_action r"])
  next
    fix r assume "r \<in> Mistake b ` set ?L"
    then show "r \<in> set ?R" by (auto simp: is_mistake_def)
  qed
  moreover have "inj_on (Mistake b) (set ?L)" by (simp add: inj_on_def)
  ultimately have c: "card (set ?R) = card (set ?L)" by (simp only: card_image)
  have dl: "distinct ?L" using dm by simp
  have "length ?R = card (set ?R)" using d by (rule distinct_card [symmetric])
  also have "\<dots> = card (set ?L)" by (rule c)
  also have "\<dots> = length ?L" using dl by (rule distinct_card)
  finally show ?thesis .
qed

text \<open>
  Claim C2, as amended. On a well-formed board \<open>catch22\<close> returns whether the number of
  records of the memory whose board equals this board, counted with multiplicity and whatever
  move they hold, equals the number of legal moves of black minus one. With exactly two
  legal moves and exactly one such record it returns true. When the records of this board
  are pairwise distinct and each holds a legal move of black, their number is the number of
  legal moves that are known mistakes.
\<close>

theorem catch22_counts_records:
  assumes wf: "wf_board b"
  shows "catch22 k b =
           Inr (int (length (filter (\<lambda>mk. configuration mk = b) (mistakes k))) =
                int (length (enumerated_moves b BLACK)) - 1) \<and>
         (length (enumerated_moves b BLACK) = 2 \<and>
          length (filter (\<lambda>mk. configuration mk = b) (mistakes k)) = 1 \<longrightarrow>
            catch22 k b = Inr True) \<and>
         (distinct (filter (\<lambda>mk. configuration mk = b) (mistakes k)) \<and>
          list_all (\<lambda>mk. configuration mk = b \<longrightarrow>
                      fault_action mk \<in> set (enumerated_moves b BLACK)) (mistakes k) \<longrightarrow>
            length (filter (\<lambda>mk. configuration mk = b) (mistakes k)) =
            length (filter (\<lambda>mv. is_mistake k b mv) (enumerated_moves b BLACK)))"
proof (intro conjI impI)
  show 1: "catch22 k b =
           Inr (int (length (filter (\<lambda>mk. configuration mk = b) (mistakes k))) =
                int (length (enumerated_moves b BLACK)) - 1)"
    by (simp add: catch22_spec [OF wf] eq_commute)
  assume "length (enumerated_moves b BLACK) = 2 \<and>
          length (filter (\<lambda>mk. configuration mk = b) (mistakes k)) = 1"
  then show "catch22 k b = Inr True" by (simp add: 1)
next
  assume "distinct (filter (\<lambda>mk. configuration mk = b) (mistakes k)) \<and>
          list_all (\<lambda>mk. configuration mk = b \<longrightarrow>
                      fault_action mk \<in> set (enumerated_moves b BLACK)) (mistakes k)"
  then show "length (filter (\<lambda>mk. configuration mk = b) (mistakes k)) =
            length (filter (\<lambda>mv. is_mistake k b mv) (enumerated_moves b BLACK))"
    using distinct_enumerated_moves by (intro record_count_eq_move_count) simp_all
qed

lemma wf_board32: "wf_board board32"
  by (simp add: wf_board_def board32_def)

theorem catch22_counts_records_witness:
  "wf_board board32 \<and> length (enumerated_moves board32 BLACK) = 2 \<and>
   length (filter (\<lambda>mk. configuration mk = board32) (mistakes knowledge_one)) = 1 \<and>
   catch22 knowledge_one board32 = Inr True \<and>
   length (filter (\<lambda>mv. is_mistake knowledge_one board32 mv) (enumerated_moves board32 BLACK)) = 1"
proof -
  have l: "length (enumerated_moves board32 BLACK) = 2" by code_simp
  have r: "length (filter (\<lambda>mk. configuration mk = board32) (mistakes knowledge_one)) = 1"
    by code_simp
  have d: "distinct (filter (\<lambda>mk. configuration mk = board32) (mistakes knowledge_one))"
    by code_simp
  have a: "list_all (\<lambda>mk. configuration mk = board32 \<longrightarrow>
             fault_action mk \<in> set (enumerated_moves board32 BLACK)) (mistakes knowledge_one)"
    by code_simp
  from catch22_counts_records [OF wf_board32, of knowledge_one] l r d a wf_board32
  show ?thesis by auto
qed

text \<open>
  Black has exactly two legal moves on the 3 by 2 initial board. With the first of them
  recorded twice, exactly one of the two moves is a known mistake, yet \<open>catch22\<close> counts
  two records and returns false.
\<close>

theorem catch22_duplicate_counterexample:
  "actions board32 BLACK = Inr [((0, 0), [(1, 0)]), ((0, 1), [(1, 1)])] \<and>
   is_mistake knowledge_dup board32 ((0, 0), (1, 0)) \<and>
   \<not> is_mistake knowledge_dup board32 ((0, 1), (1, 1)) \<and>
   catch22 knowledge_dup board32 = Inr False"
proof -
  have 1: "actions board32 BLACK = Inr [((0, 0), [(1, 0)]), ((0, 1), [(1, 1)])]" by code_simp
  have 2: "is_mistake knowledge_dup board32 ((0, 0), (1, 0))" by code_simp
  have 3: "\<not> is_mistake knowledge_dup board32 ((0, 1), (1, 1))" by code_simp
  have 4: "catch22 knowledge_dup board32 = Inr False" by code_simp
  from 1 2 3 4 show ?thesis by blast
qed

section \<open>Legal moves applied, and the backward analysis\<close>

text \<open>
  Claim C7, as amended. For a well-formed board and a move that the enumeration lists for
  white or for black, \<open>result\<close> returns a board of the same shape in which the departure
  cell is empty, the destination cell holds the piece that was at the departure, and every
  other cell is unchanged; departure and destination differ, so exactly one piece has
  moved. A straight advance lands on an empty cell and keeps the number of pieces; a diagonal
  move lands on a piece of the other side, which is captured: the number of pieces drops by
  exactly one.
\<close>

theorem result_legal_move:
  assumes wf: "wf_board b" and side: "side = WHITE \<or> side = BLACK"
    and legal: "(src, dst) \<in> set (enumerated_moves b side)"
  shows "\<exists>b'. result b src dst = Inr b' \<and> wf_board b' \<and> length b' = length b \<and>
           length (hd b') = length (hd b) \<and> src \<noteq> dst \<and> piece_at b src = side \<and>
           piece_at b' src = EMPTY \<and> piece_at b' dst = side \<and>
           (\<forall>q. in_bounds b q \<and> q \<noteq> src \<and> q \<noteq> dst \<longrightarrow> piece_at b' q = piece_at b q) \<and>
           (snd dst = snd src \<longrightarrow>
              piece_at b dst = EMPTY \<and> count_pieces b' = count_pieces b) \<and>
           (snd dst \<noteq> snd src \<longrightarrow>
              piece_at b dst = opposing side \<and> count_pieces b' + 1 = count_pieces b)"
proof -
  obtain i j where src: "src = (i, j)" by (cases src)
  from enumerated_moves_in_bounds [OF legal]
  have ib: "in_bounds b src" "in_bounds b dst" and at: "piece_at b src = side"
    and d: "dst \<in> set (destinations b side (i, j))"
    by (simp_all add: src)
  have dir: "forward_dir side \<noteq> 0" by (simp add: forward_dir_def)
  have opp: "opposing side \<noteq> EMPTY" by (simp add: opposing_def)
  have sd: "side \<noteq> EMPTY" using side by auto
  from d have kind: "dst = (i + forward_dir side, j) \<and> piece_at b dst = EMPTY \<or>
      (dst = (i + forward_dir side, j - 1) \<or> dst = (i + forward_dir side, j + 1)) \<and>
      piece_at b dst = opposing side"
    unfolding destinations_set by auto
  have neq: "src \<noteq> dst" using kind dir by (auto simp: src)
  obtain di dj where dst: "dst = (di, dj)" by (cases dst)
  have kind': "dj = j \<and> piece_at b dst = EMPTY \<or>
      (dj = j - 1 \<or> dj = j + 1) \<and> piece_at b dst = opposing side"
    using kind by (auto simp: dst)
  have straight: "snd dst = snd src \<longrightarrow> piece_at b dst = EMPTY"
    using kind' by (auto simp: src dst)
  have diag: "snd dst \<noteq> snd src \<longrightarrow> piece_at b dst = opposing side"
    using kind' by (auto simp: src dst)
  let ?b1 = "put b dst side"
  let ?b2 = "put ?b1 src EMPTY"
  have wf1: "wf_board ?b1" using wf by (rule wf_board_put)
  have ib1: "in_bounds ?b1 src" using wf ib(1) by (simp add: in_bounds_put)
  have ne: "b \<noteq> []" using wf by (simp add: wf_board_def)
  have ne1: "?b1 \<noteq> []" using ne by (simp add: put_def)
  have r: "result b src dst = Inr ?b2"
    using result_in_bounds [OF wf ib] at by simp
  have w: "wf_board ?b2" using wf1 by (rule wf_board_put)
  have l: "length ?b2 = length b" by simp
  have h: "length (hd ?b2) = length (hd b)"
    by (simp only: hd_put_length [OF ne1] hd_put_length [OF ne])
  have a1: "piece_at ?b1 src = side"
    using wf ib neq at by (simp add: piece_at_put)
  have e: "piece_at ?b2 src = EMPTY"
    using wf1 ib1 by (simp add: piece_at_put)
  have m: "piece_at ?b2 dst = side"
    using wf wf1 ib ib1 neq by (simp add: piece_at_put in_bounds_put)
  have o: "\<forall>q. in_bounds b q \<and> q \<noteq> src \<and> q \<noteq> dst \<longrightarrow> piece_at ?b2 q = piece_at b q"
    using wf wf1 ib ib1 by (simp add: piece_at_put in_bounds_put)
  have c1: "count_pieces ?b1 + (if piece_at b dst = EMPTY then 0 else 1) = count_pieces b + 1"
    using count_pieces_put [OF wf ib(2), of side] sd by simp
  have c2: "count_pieces ?b2 + 1 = count_pieces ?b1"
    using count_pieces_put [OF wf1 ib1, of EMPTY] a1 sd by simp
  have cs: "snd dst = snd src \<longrightarrow> piece_at b dst = EMPTY \<and> count_pieces ?b2 = count_pieces b"
    using straight c1 c2 by auto
  have cd: "snd dst \<noteq> snd src \<longrightarrow>
      piece_at b dst = opposing side \<and> count_pieces ?b2 + 1 = count_pieces b"
    using diag opp c1 c2 by auto
  from r w l h neq at e m o cs cd show ?thesis by blast
qed

theorem result_legal_move_witness:
  "wf_board board_cap \<and> ((0, 0), (1, 0)) \<in> set (enumerated_moves board_cap BLACK) \<and>
   ((0, 0), (1, 1)) \<in> set (enumerated_moves board_cap BLACK) \<and>
   (\<exists>b'. result board_cap (0, 0) (1, 0) = Inr b' \<and> piece_at b' (0, 0) = EMPTY \<and>
      piece_at b' (1, 0) = BLACK \<and> count_pieces b' = count_pieces board_cap) \<and>
   (\<exists>b'. result board_cap (0, 0) (1, 1) = Inr b' \<and> piece_at b' (0, 0) = EMPTY \<and>
      piece_at b' (1, 1) = BLACK \<and> count_pieces b' + 1 = count_pieces board_cap)"
proof -
  have wf: "wf_board board_cap" by (simp add: wf_board_def board_cap_def)
  have s: "((0, 0), (1, 0)) \<in> set (enumerated_moves board_cap BLACK)" by code_simp
  have c: "((0, 0), (1, 1)) \<in> set (enumerated_moves board_cap BLACK)" by code_simp
  have 1: "\<exists>b'. result board_cap (0, 0) (1, 0) = Inr b' \<and> piece_at b' (0, 0) = EMPTY \<and>
      piece_at b' (1, 0) = BLACK \<and> count_pieces b' = count_pieces board_cap"
    using result_legal_move [OF wf _ s] by auto
  have 2: "\<exists>b'. result board_cap (0, 0) (1, 1) = Inr b' \<and> piece_at b' (0, 0) = EMPTY \<and>
      piece_at b' (1, 1) = BLACK \<and> count_pieces b' + 1 = count_pieces board_cap"
    using result_legal_move [OF wf _ c] by auto
  from wf s c 1 2 show ?thesis by blast
qed

text \<open>
  On the 2 by 2 board with black on \<open>(0,0)\<close> and white on \<open>(1,1)\<close> the capture is a legal
  move of black, and it leaves one piece where there were two.
\<close>

theorem capture_removes_piece_counterexample:
  "actions board_cap BLACK = Inr [((0, 0), [(1, 0), (1, 1)])] \<and>
   result board_cap (0, 0) (1, 1) = Inr [[EMPTY, EMPTY], [EMPTY, BLACK]] \<and>
   count_pieces board_cap = 2 \<and> count_pieces [[EMPTY, EMPTY], [EMPTY, BLACK]] = 1"
proof -
  have 1: "actions board_cap BLACK = Inr [((0, 0), [(1, 0), (1, 1)])]" by code_simp
  have 2: "result board_cap (0, 0) (1, 1) = Inr [[EMPTY, EMPTY], [EMPTY, BLACK]]" by code_simp
  have 3: "count_pieces board_cap = 2" by code_simp
  have 4: "count_pieces [[EMPTY, EMPTY], [EMPTY, BLACK]] = 1" by code_simp
  from 1 2 3 4 show ?thesis by blast
qed


lemma review_reflect_None: "review_reflect k None = Inr k"
  by (simp add: review_reflect_def)

lemma review_reflect_Some:
  "review_reflect k (Some (Node s p a)) =
     ebind (catch22 k s) (\<lambda>c.
       if c then review_reflect (notify k (Mistake s a)) p
       else Inr (notify k (Mistake s a)))"
  by (cases "catch22 k s") (simp_all add: review_reflect_def)

lemma remember_all_Nil: "remember_all k [] = k"
  by (simp add: remember_all_def)

lemma remember_all_Cons:
  "remember_all (notify k (node_mistake nd)) nds = remember_all k (nd # nds)"
  by (simp add: remember_all_def notify_def)

lemma catch22_bool:
  assumes "wf_board s"
  shows "catch22 k s = Inr True \<or> catch22 k s = Inr False"
  by (simp add: catch22_spec [OF assms])

lemma review_reflect_prefix:
  "list_all (\<lambda>nd. wf_board (state nd)) (walk h) \<Longrightarrow>
   review_reflect k h =
     Inr (remember_all k (take (Suc (forced_prefix k (walk h))) (walk h)))"
proof (induction h arbitrary: k rule: walk.induct)
  case 1
  show ?case by (simp add: review_reflect_None remember_all_Nil)
next
  case (2 s p a)
  have wf: "wf_board s" and rest: "list_all (\<lambda>nd. wf_board (state nd)) (walk p)"
    using "2.prems" by simp_all
  have nm: "node_mistake (Node s p a) = Mistake s a" by (simp add: node_mistake_def)
  from catch22_bool [OF wf, of k] show ?case
  proof
    assume c: "catch22 k s = Inr True"
    have "review_reflect k (Some (Node s p a)) = review_reflect (notify k (Mistake s a)) p"
      by (simp add: review_reflect_Some c)
    also have "\<dots> = Inr (remember_all (notify k (Mistake s a))
        (take (Suc (forced_prefix (notify k (Mistake s a)) (walk p))) (walk p)))"
      using rest by (rule "2.IH")
    finally show ?thesis
      using c by (simp add: remember_all_Cons [symmetric] nm)
  next
    assume c: "catch22 k s = Inr False"
    then show ?thesis
      by (simp add: review_reflect_Some nm remember_all_Cons [symmetric] remember_all_Nil)
  qed
qed

lemma forced_prefix_le: "forced_prefix k nds \<le> length nds"
  by (induction nds arbitrary: k) simp_all

lemma forced_prefix_true:
  "t < forced_prefix k nds \<Longrightarrow>
   catch22 (remember_all k (take t nds)) (state (nds ! t)) = Inr True"
proof (induction nds arbitrary: k t)
  case Nil
  then show ?case by simp
next
  case (Cons nd nds)
  from Cons.prems have c: "catch22 k (state nd) = Inr True"
    by (simp split: if_splits)
  show ?case
  proof (cases t)
    case 0
    then show ?thesis by (simp add: c remember_all_Nil)
  next
    case (Suc t')
    with Cons.prems c have "t' < forced_prefix (notify k (node_mistake nd)) nds" by simp
    from Cons.IH [OF this] show ?thesis
      by (simp add: Suc remember_all_Cons)
  qed
qed

lemma forced_prefix_stop:
  "forced_prefix k nds < length nds \<Longrightarrow>
   catch22 (remember_all k (take (forced_prefix k nds) nds))
     (state (nds ! forced_prefix k nds)) \<noteq> Inr True"
proof (induction nds arbitrary: k)
  case Nil
  then show ?case by simp
next
  case (Cons nd nds)
  show ?case
  proof (cases "catch22 k (state nd) = Inr True")
    case True
    with Cons.prems
    have "forced_prefix (notify k (node_mistake nd)) nds < length nds" by simp
    from Cons.IH [OF this] show ?thesis
      using True by (simp add: remember_all_Cons)
  next
    case False
    then show ?thesis by (simp add: remember_all_Nil)
  qed
qed

lemma catch22_same_records:
  "filter (\<lambda>mk. configuration mk = s) (mistakes k) =
   filter (\<lambda>mk. configuration mk = s) (mistakes k') \<Longrightarrow> catch22 k s = catch22 k' s"
  by (simp add: catch22_def)

lemma catch22_other_boards:
  assumes "distinct (map state nds)" "t < length nds"
  shows "catch22 (remember_all k (take t nds)) (state (nds ! t)) = catch22 k (state (nds ! t))"
proof (rule catch22_same_records)
  have "\<And>nd. nd \<in> set (take t nds) \<Longrightarrow> state nd \<noteq> state (nds ! t)"
  proof
    fix nd assume nd: "nd \<in> set (take t nds)" and eq: "state nd = state (nds ! t)"
    from nd obtain u where u: "u < t" "nd = nds ! u"
      using assms(2) by (auto simp: in_set_conv_nth)
    then have "map state nds ! u = map state nds ! t"
      using eq assms(2) by simp
    then have "u = t"
      using assms u(1) by (simp add: nth_eq_iff_index_eq del: nth_map)
    with u(1) show False by simp
  qed
  then have "filter (\<lambda>mk. configuration mk = state (nds ! t))
      (map node_mistake (take t nds)) = []"
    by (auto simp: filter_empty_conv node_mistake_def)
  then show "filter (\<lambda>mk. configuration mk = state (nds ! t))
        (mistakes (remember_all k (take t nds))) =
      filter (\<lambda>mk. configuration mk = state (nds ! t)) (mistakes k)"
    by (simp add: remember_all_def)
qed

text \<open>
  Claim C1. For every memory and every chain whose boards are well formed there is a
  \<open>j\<close>, at most the length of the chain, such that \<open>review_reflect\<close> appends to the memory
  exactly the records of the first \<open>j + 1\<close> nodes of the chain, in order from the head (all
  of them when \<open>j\<close> is the length, none when the chain is empty). The Catch-22 test holds at
  each of the first \<open>j\<close> nodes and fails at node \<open>j\<close> when there is one; each test is made,
  as the loop makes it, on the memory that already holds the records of the nodes before.
  When the boards of the chain are pairwise distinct, as in a game, the tests give the same
  answers on the memory the analysis started with.
\<close>

theorem review_reflect_records:
  assumes wf: "list_all (\<lambda>nd. wf_board (state nd)) (walk h)"
  shows "\<exists>j \<le> length (walk h).
     review_reflect k h =
       Inr (k\<lparr>mistakes := mistakes k @ map node_mistake (take (Suc j) (walk h))\<rparr>) \<and>
     (\<forall>t < j. catch22 (k\<lparr>mistakes := mistakes k @ map node_mistake (take t (walk h))\<rparr>)
                (state (walk h ! t)) = Inr True) \<and>
     (j < length (walk h) \<longrightarrow>
        catch22 (k\<lparr>mistakes := mistakes k @ map node_mistake (take j (walk h))\<rparr>)
          (state (walk h ! j)) = Inr False) \<and>
     (distinct (map state (walk h)) \<longrightarrow>
        (\<forall>t < j. catch22 k (state (walk h ! t)) = Inr True) \<and>
        (j < length (walk h) \<longrightarrow> catch22 k (state (walk h ! j)) = Inr False)) \<and>
     (h = None \<longrightarrow> review_reflect k h = Inr k)"
proof -
  let ?nds = "walk h"
  let ?j = "forced_prefix k ?nds"
  have le: "?j \<le> length ?nds" by (rule forced_prefix_le)
  have run: "review_reflect k h = Inr (remember_all k (take (Suc ?j) ?nds))"
    using wf by (rule review_reflect_prefix)
  have tr: "\<forall>t < ?j. catch22 (remember_all k (take t ?nds)) (state (?nds ! t)) = Inr True"
    using forced_prefix_true by blast
  have st: "?j < length ?nds \<longrightarrow>
      catch22 (remember_all k (take ?j ?nds)) (state (?nds ! ?j)) = Inr False"
  proof
    assume lt: "?j < length ?nds"
    then have "wf_board (state (?nds ! ?j))"
      using wf by (simp add: list_all_length)
    from catch22_bool [OF this] forced_prefix_stop [OF lt]
    show "catch22 (remember_all k (take ?j ?nds)) (state (?nds ! ?j)) = Inr False"
      by blast
  qed
  have di: "distinct (map state ?nds) \<longrightarrow>
      (\<forall>t < ?j. catch22 k (state (?nds ! t)) = Inr True) \<and>
      (?j < length ?nds \<longrightarrow> catch22 k (state (?nds ! ?j)) = Inr False)"
  proof (intro impI conjI allI)
    fix t assume d: "distinct (map state ?nds)" and t: "t < ?j"
    then have "t < length ?nds" using le by simp
    from catch22_other_boards [OF d this, of k] tr t
    show "catch22 k (state (?nds ! t)) = Inr True" by simp
  next
    assume d: "distinct (map state ?nds)" and lt: "?j < length ?nds"
    from catch22_other_boards [OF d lt, of k] st lt
    show "catch22 k (state (?nds ! ?j)) = Inr False" by simp
  qed
  have em: "h = None \<longrightarrow> review_reflect k h = Inr k"
    by (simp add: review_reflect_None)
  from le run tr st di em show ?thesis
    unfolding remember_all_def by blast
qed

theorem review_reflect_records_witness:
  "list_all (\<lambda>nd. wf_board (state nd)) (walk history2) \<and>
   catch22 \<lparr>mistakes = []\<rparr> board_col = Inr True \<and>
   catch22 \<lparr>mistakes = [Mistake board_col ((0, 0), (1, 0))]\<rparr> board3 = Inr False \<and>
   review_reflect \<lparr>mistakes = []\<rparr> history2 =
     Inr \<lparr>mistakes = [Mistake board_col ((0, 0), (1, 0)), Mistake board3 ((0, 0), (1, 0))]\<rparr> \<and>
   (\<exists>j \<le> length (walk history2).
      review_reflect \<lparr>mistakes = []\<rparr> history2 =
        Inr (\<lparr>mistakes = []\<rparr>\<lparr>mistakes := mistakes \<lparr>mistakes = []\<rparr> @
               map node_mistake (take (Suc j) (walk history2))\<rparr>))"
proof -
  have w: "list_all (\<lambda>nd. wf_board (state nd)) (walk history2)"
    by (simp add: history2_def wf_board_col wf_board3)
  have 1: "catch22 \<lparr>mistakes = []\<rparr> board_col = Inr True" by code_simp
  have 2: "catch22 \<lparr>mistakes = [Mistake board_col ((0, 0), (1, 0))]\<rparr> board3 = Inr False"
    by code_simp
  have 3: "review_reflect \<lparr>mistakes = []\<rparr> history2 =
     Inr \<lparr>mistakes = [Mistake board_col ((0, 0), (1, 0)), Mistake board3 ((0, 0), (1, 0))]\<rparr>"
    by code_simp
  from review_reflect_records [OF w, of "\<lparr>mistakes = []\<rparr>"] w 1 2 3
  show ?thesis by blast
qed

end
